theory Spec2Isabelle
  imports Main
begin

section \<open>The message bus of Bluepass (\<^verbatim>\<open>bluepass/messagebus.py\<close>)\<close>

text \<open>
  A shallow embedding of the JSON-RPC message bus: the frame scanner
  \<^verbatim>\<open>find_message_end\<close>, the connection (\<^verbatim>\<open>MessageBusConnectionBase\<close>) with its
  queues, watches, call table and timers, the handler registry
  (\<^verbatim>\<open>MessageBusHandler\<close>) and the fan-out call of \<^verbatim>\<open>MessageBusServer\<close>.
  Python exceptions are values of \<open>py_error\<close>; a function that can raise returns
  \<open>py_error + 'a\<close>.
\<close>

datatype py_error = ValueError | KeyError | TypeError | UnicodeDecodeError

subsection \<open>Characters\<close>

abbreviation lbrace :: char where "lbrace \<equiv> CHR ''{''"
abbreviation rbrace :: char where "rbrace \<equiv> CHR ''}''"
abbreviation dquote :: char where "dquote \<equiv> CHR 0x22"
abbreviation backslash :: char where "backslash \<equiv> CHR 0x5C"

text \<open>
  \<^verbatim>\<open>ch.isspace()\<close>. The read pump decodes the received bytes as ASCII, so the
  scanner sees a unicode string of ASCII characters; for those, Python's
  \<^verbatim>\<open>unicode.isspace\<close> holds of TAB, LF, VT, FF, CR, the separators FS, GS, RS, US
  and the space.
\<close>

definition isspace :: "char \<Rightarrow> bool" where
  "isspace ch = (ch \<in> set [CHR 0x09, CHR 0x0A, CHR 0x0B, CHR 0x0C, CHR 0x0D,
                            CHR 0x1C, CHR 0x1D, CHR 0x1E, CHR 0x1F, CHR 0x20])"

subsection \<open>The frame scanner\<close>

text \<open>\<^verbatim>\<open>s_preamble, s_object, s_string, s_string_escape = range(4)\<close>\<close>

datatype scan_state = s_preamble | s_object | s_string | s_string_escape

text \<open>
  One pass through the body of the \<^verbatim>\<open>for\<close> loop of \<^verbatim>\<open>find_message_end\<close>, up to
  the test of \<^verbatim>\<open>state == s_object and depth == 0\<close>: the new state and depth, or
  the \<^verbatim>\<open>ValueError\<close> raised in the preamble.
\<close>

definition scan_char :: "scan_state \<Rightarrow> int \<Rightarrow> char \<Rightarrow> py_error + scan_state \<times> int" where
  "scan_char state depth ch =
     (case state of
        s_preamble \<Rightarrow>
          if ch = lbrace then Inr (s_object, 1)
          else if \<not> isspace ch then Inl ValueError
          else Inr (state, depth)
      | s_object \<Rightarrow>
          if ch = lbrace then Inr (state, depth + 1)
          else if ch = rbrace then Inr (state, depth - 1)
          else if ch = dquote then Inr (s_string, depth)
          else Inr (state, depth)
      | s_string \<Rightarrow>
          if ch = dquote then Inr (s_object, depth)
          else if ch = backslash then Inr (s_string_escape, depth)
          else Inr (state, depth)
      | s_string_escape \<Rightarrow> Inr (s_string, depth))"

text \<open>
  The loop \<^verbatim>\<open>for i in range(len(buf))\<close>, from index \<open>i\<close> on, over the rest of
  the buffer; \<open>Inr (- 1)\<close> is the \<^verbatim>\<open>return -1\<close> after the loop.
\<close>

fun scan :: "scan_state \<Rightarrow> int \<Rightarrow> nat \<Rightarrow> string \<Rightarrow> py_error + int" where
  "scan state depth i [] = Inr (- 1)"
| "scan state depth i (ch # rest) =
     (case scan_char state depth ch of
        Inl e \<Rightarrow> Inl e
      | Inr (state', depth') \<Rightarrow>
          if state' = s_object \<and> depth' = 0 then Inr (int i)
          else scan state' depth' (Suc i) rest)"

definition find_message_end :: "string \<Rightarrow> py_error + int" where
  "find_message_end buf = scan s_preamble 0 0 buf"

subsection \<open>The grammar of JSON texts (RFC 8259), for the framing property\<close>

text \<open>
  The framing property speaks of complete top-level JSON objects. What a JSON
  object is comes from the JSON grammar, not from the scanner: the predicates
  below follow the grammar of RFC 8259 on character lists.
\<close>

definition json_ws :: "string \<Rightarrow> bool" where
  "json_ws w = list_all (\<lambda>c. c = CHR 0x20 \<or> c = CHR 0x09 \<or> c = CHR 0x0A \<or> c = CHR 0x0D) w"

definition digit :: "char \<Rightarrow> bool" where
  "digit c = (c \<in> set ''0123456789'')"

definition hexdigit :: "char \<Rightarrow> bool" where
  "hexdigit c = (c \<in> set ''0123456789abcdefABCDEF'')"

definition json_int :: "string \<Rightarrow> bool" where
  "json_int w = (w = ''0'' \<or> (w \<noteq> [] \<and> list_all digit w \<and> hd w \<noteq> CHR ''0''))"

definition json_frac :: "string \<Rightarrow> bool" where
  "json_frac w = (w = [] \<or> (\<exists>d. w = CHR ''.'' # d \<and> d \<noteq> [] \<and> list_all digit d))"

definition json_exp :: "string \<Rightarrow> bool" where
  "json_exp w = (w = [] \<or>
     (\<exists>e s d. w = e # s @ d \<and> (e = CHR ''e'' \<or> e = CHR ''E'') \<and>
        (s = [] \<or> s = ''+'' \<or> s = ''-'') \<and> d \<noteq> [] \<and> list_all digit d))"

definition json_number :: "string \<Rightarrow> bool" where
  "json_number w = (\<exists>s n f e. w = s @ n @ f @ e \<and> (s = [] \<or> s = ''-'') \<and>
     json_int n \<and> json_frac f \<and> json_exp e)"

text \<open>The characters between the quotes of a JSON string.\<close>

inductive json_chars :: "string \<Rightarrow> bool" where
  chars_end: "json_chars []"
| chars_plain: "c \<noteq> dquote \<Longrightarrow> c \<noteq> backslash \<Longrightarrow> (32::nat) \<le> of_char c \<Longrightarrow> json_chars cs
     \<Longrightarrow> json_chars (c # cs)"
| chars_escape: "e \<in> set [dquote, backslash, CHR ''/'', CHR ''b'', CHR ''f'', CHR ''n'',
       CHR ''r'', CHR ''t''] \<Longrightarrow> json_chars cs
     \<Longrightarrow> json_chars (backslash # e # cs)"
| chars_unicode: "hexdigit h1 \<Longrightarrow> hexdigit h2 \<Longrightarrow> hexdigit h3 \<Longrightarrow> hexdigit h4
     \<Longrightarrow> json_chars cs
     \<Longrightarrow> json_chars (backslash # CHR ''u'' # h1 # h2 # h3 # h4 # cs)"

definition json_string :: "string \<Rightarrow> bool" where
  "json_string s = (\<exists>cs. s = dquote # cs @ [dquote] \<and> json_chars cs)"

inductive json_value :: "string \<Rightarrow> bool"
  and json_object :: "string \<Rightarrow> bool"
  and json_members :: "string \<Rightarrow> bool"
  and json_elements :: "string \<Rightarrow> bool"
where
  value_string: "json_string s \<Longrightarrow> json_value s"
| value_number: "json_number n \<Longrightarrow> json_value n"
| value_true: "json_value ''true''"
| value_false: "json_value ''false''"
| value_null: "json_value ''null''"
| value_object: "json_object ob \<Longrightarrow> json_value ob"
| value_array_empty: "json_ws w \<Longrightarrow> json_value (CHR ''['' # w @ '']'')"
| value_array: "json_elements es \<Longrightarrow> json_value (CHR ''['' # es @ '']'')"
| object_empty: "json_ws w \<Longrightarrow> json_object (lbrace # w @ [rbrace])"
| object_members: "json_members ms \<Longrightarrow> json_object (lbrace # ms @ [rbrace])"
| members_one: "json_ws w1 \<Longrightarrow> json_string k \<Longrightarrow> json_ws w2 \<Longrightarrow> json_ws w3
     \<Longrightarrow> json_value v \<Longrightarrow> json_ws w4
     \<Longrightarrow> json_members (w1 @ k @ w2 @ '':'' @ w3 @ v @ w4)"
| members_more: "json_ws w1 \<Longrightarrow> json_string k \<Longrightarrow> json_ws w2 \<Longrightarrow> json_ws w3
     \<Longrightarrow> json_value v \<Longrightarrow> json_ws w4 \<Longrightarrow> json_members ms
     \<Longrightarrow> json_members (w1 @ k @ w2 @ '':'' @ w3 @ v @ w4 @ '','' @ ms)"
| elements_one: "json_ws w1 \<Longrightarrow> json_value v \<Longrightarrow> json_ws w2
     \<Longrightarrow> json_elements (w1 @ v @ w2)"
| elements_more: "json_ws w1 \<Longrightarrow> json_value v \<Longrightarrow> json_ws w2 \<Longrightarrow> json_elements es
     \<Longrightarrow> json_elements (w1 @ v @ w2 @ '','' @ es)"

subsection \<open>JSON values and messages\<close>

text \<open>
  A decoded JSON value. Python's \<^verbatim>\<open>None\<close> is \<open>JNull\<close>, a tuple or list is
  \<open>JList\<close>, a dictionary is an association list (\<open>map_of\<close> looks a key up). Numbers
  are Python's unbounded integers; floating point numbers are not modelled.
\<close>

datatype json = JNull | JBool bool | JInt int | JStr string | JList "json list"
  | JDict "(string \<times> json) list"

type_synonym message = "(string \<times> json) list"

text \<open>\<^verbatim>\<open>key in message\<close>\<close>

definition has_key :: "message \<Rightarrow> string \<Rightarrow> bool" where
  "has_key m k = (map_of m k \<noteq> None)"

text \<open>
  The JSON codec of \<^verbatim>\<open>bluepass.util.json\<close> is not part of the sources: it is a
  parameter of the model. \<open>try_loads s\<close> is \<^verbatim>\<open>json.try_loads(s, dict)\<close>: the decoded
  dictionary, or \<open>None\<close> when \<open>s\<close> does not decode or its root is not a dictionary.
  \<open>dumps m\<close> is \<^verbatim>\<open>json.dumps(m, indent=2)\<close>.
\<close>

record json_lib =
  try_loads :: "string \<Rightarrow> message option"
  dumps :: "message \<Rightarrow> string"

subsection \<open>Structured errors\<close>

text \<open>
  Modelled from the spec: \<^verbatim>\<open>StructuredError\<close> of \<^verbatim>\<open>bluepass.error\<close>, which is not part
  of the sources. A structured error carries a name, a message and a detail
  (\<^verbatim>\<open>asdict()\<close> gives them as \<^verbatim>\<open>error_name\<close>, \<^verbatim>\<open>error_message\<close>, \<^verbatim>\<open>error_detail\<close>); the
  spec's error object for a timeout is
  \<^verbatim>\<open>{code: "Timeout", message: "Method call timed out", data: null}\<close>, so an omitted
  detail is null; an omitted message is taken to be null as well.
\<close>

record structured_error =
  error_name :: string
  error_message :: json
  error_detail :: json

definition StructuredError :: "string \<Rightarrow> json option \<Rightarrow> json option \<Rightarrow> structured_error" where
  "StructuredError name msg detail =
     \<lparr>error_name = name,
      error_message = (case msg of None \<Rightarrow> JNull | Some m \<Rightarrow> m),
      error_detail = (case detail of None \<Rightarrow> JNull | Some d \<Rightarrow> d)\<rparr>"

text \<open>\<^verbatim>\<open>class MessageBusError(StructuredError)\<close>\<close>

abbreviation MessageBusError :: "string \<Rightarrow> json option \<Rightarrow> json option \<Rightarrow> structured_error" where
  "MessageBusError \<equiv> StructuredError"

subsection \<open>Callbacks, closures and the handler registry\<close>

text \<open>
  A callback is a callable of the caller's: the model does not run it, it records
  that it was called. \<open>UserCallback n\<close> is the \<open>n\<close>-th callable of the application,
  \<open>WaiterSwitch w\<close> is the \<^verbatim>\<open>method_return_callback\<close> of the synchronous calls, which
  does \<^verbatim>\<open>waiter.switch(message)\<close> on the waiter \<open>w\<close>.
\<close>

datatype callback = UserCallback nat | WaiterSwitch nat

text \<open>
  The closure \<^verbatim>\<open>method_return_callback\<close> that \<^verbatim>\<open>call_method\<close> builds: it captures
  \<^verbatim>\<open>message['id']\<close> and \<^verbatim>\<open>callback\<close> (and its own timer, which is the timer
  registered under the same id).
\<close>

record closure =
  call_id :: int
  reply_callback :: callback

text \<open>
  A timer of \<^verbatim>\<open>loop.create_timer(timeout, method_return_callback)\<close>: the delay and the
  closure it calls. Time itself is not modelled: a started timer may fire at any step.
\<close>

record timer =
  after :: nat
  fires :: closure

text \<open>What \<^verbatim>\<open>loop.create_callback\<close> has scheduled: \<^verbatim>\<open>self.dispatch\<close>, or a closure with the reply.\<close>

datatype deferred = RunDispatch | RunReply closure message

text \<open>
  What a handler does when it is called as \<^verbatim>\<open>handler(*args)\<close>: it may call
  \<^verbatim>\<open>self.early_response(value)\<close> and \<^verbatim>\<open>self.delay_response()\<close> while it runs, and it
  returns a value, raises a structured error or raises another exception.
\<close>

datatype handler_action = EarlyResponse json | DelayResponse

datatype outcome = Returns json | RaisesStructured structured_error | RaisesOther

record handler_run =
  actions :: "handler_action list"
  outcome :: outcome

text \<open>
  A registered handler: whether it is callable, what \<^verbatim>\<open>inspect.getargspec\<close> says of it
  (\<open>spec_args\<close> is \<^verbatim>\<open>len(spec.args)\<close>, which counts \<^verbatim>\<open>self\<close>; \<open>spec_defaults\<close> is
  \<^verbatim>\<open>len(spec.defaults)\<close>, 0 when there are none; \<open>spec_varargs\<close> says whether the
  handler is variadic), and its behaviour.
\<close>

record method_handler =
  is_callable :: bool
  spec_args :: nat
  spec_defaults :: nat
  spec_varargs :: bool
  body :: "json list \<Rightarrow> handler_run"

text \<open>
  \<^verbatim>\<open>MessageBusHandler\<close>: the two tables, \<^verbatim>\<open>self.local.response_sent\<close>, and the record of
  the calls made to handlers (name and arguments), the visible effect of
  \<^verbatim>\<open>handler(*args)\<close>.
\<close>

record handler =
  methods :: "string \<rightharpoonup> method_handler"
  signal_handlers :: "string \<rightharpoonup> method_handler"
  response_sent :: bool
  invoked :: "(string \<times> json list) list"

subsection \<open>The connection\<close>

datatype sock_op = Shutdown | SockClose

text \<open>
  \<^verbatim>\<open>MessageBusConnectionBase\<close> with the state of its event loop. \<open>read_watch\<close> and
  \<open>write_watch\<close> are the \<^verbatim>\<open>active\<close> flags of the two I/O watches; \<open>timers\<close> holds the
  started timers, under the id of the call each was created for; \<open>scheduled\<close> is the queue of \<^verbatim>\<open>loop.create_callback\<close>. The last five
  fields record what the connection did to the outside: the socket operations of
  \<^verbatim>\<open>close\<close>, every event raised by \<^verbatim>\<open>_run_callbacks\<close> with the callbacks it was raised
  to, every call of a reply callback (with the id of the call whose closure made
  it), and the exceptions that escaped a callback of the loop. The trace file is
  left out: tracing writes to a file and changes nothing else.
\<close>

record conn =
  handler :: "handler option"
  next_serial :: int
  closed :: bool
  callbacks :: "callback list"
  method_calls :: "int \<rightharpoonup> closure"
  read_watch :: bool
  write_watch :: bool
  inbuf :: string
  outbuf :: string
  incoming :: "string list"
  outgoing :: "string list"
  reading :: bool
  writing :: bool
  timeout :: nat
  max_message_size :: nat
  max_incoming_messages :: int
  timers :: "int \<rightharpoonup> timer"
  scheduled :: "deferred list"
  socket_ops :: "sock_op list"
  raised :: "(string \<times> callback list) list"
  deliveries :: "(int \<times> callback \<times> message) list"
  faults :: "py_error list"

text \<open>
  \<^verbatim>\<open>__init__\<close>: the class attributes are \<^verbatim>\<open>timeout = 30\<close>,
  \<^verbatim>\<open>max_message_size = 1024000\<close>, \<^verbatim>\<open>max_incoming_messages = 100\<close>; both watches are
  started by \<^verbatim>\<open>create_watch\<close>.
\<close>

definition init_conn :: "handler option \<Rightarrow> conn" where
  "init_conn h =
     \<lparr>handler = h, next_serial = 1, closed = False, callbacks = [],
      method_calls = Map.empty, read_watch = True, write_watch = True,
      inbuf = [], outbuf = [], incoming = [], outgoing = [],
      reading = True, writing = True,
      timeout = 30, max_message_size = 1024000, max_incoming_messages = 100,
      timers = Map.empty, scheduled = [], socket_ops = [], raised = [],
      deliveries = [], faults = []\<rparr>"

text \<open>\<^verbatim>\<open>add_callback\<close> and \<^verbatim>\<open>_run_callbacks\<close>\<close>

definition add_callback :: "callback \<Rightarrow> conn \<Rightarrow> conn" where
  "add_callback cb c = c\<lparr>callbacks := callbacks c @ [cb]\<rparr>"

definition run_callbacks :: "string \<Rightarrow> conn \<Rightarrow> conn" where
  "run_callbacks event c = c\<lparr>raised := raised c @ [(event, callbacks c)]\<rparr>"

text \<open>
  \<^verbatim>\<open>close\<close>. The two \<^verbatim>\<open>socket.error\<close>s are caught and ignored, so the calls of
  \<^verbatim>\<open>shutdown\<close> and \<^verbatim>\<open>close\<close> are all that is recorded.
\<close>

definition close :: "conn \<Rightarrow> conn" where
  "close c =
     (if closed c then c
      else run_callbacks ''ConnectionClosed''
             (c\<lparr>read_watch := False, write_watch := False,
                socket_ops := socket_ops c @ [Shutdown, SockClose],
                closed := True\<rparr>))"

text \<open>\<^verbatim>\<open>push_outgoing\<close> (the message is a dictionary by its type)\<close>

definition push_outgoing :: "json_lib \<Rightarrow> message \<Rightarrow> conn \<Rightarrow> conn" where
  "push_outgoing J m c =
     (let c1 = c\<lparr>outgoing := outgoing c @ [dumps J m]\<rparr>
      in if \<not> closed c1 \<and> \<not> writing c1
         then c1\<lparr>write_watch := True, writing := True\<rparr>
         else c1)"

text \<open>
  Modelled from the spec: \<^verbatim>\<open>json.unpack(message, '{s:s}', ('jsonrpc',))\<close> of
  \<^verbatim>\<open>bluepass.util.json\<close>, which is not part of the sources, gives the member
  \<^verbatim>\<open>jsonrpc\<close> when it is there and is a string, and raises \<^verbatim>\<open>UnpackError\<close> otherwise.
  \<^verbatim>\<open>check_message\<close> then compares it with \<^verbatim>\<open>'2.0'\<close>.
\<close>

definition check_message :: "message \<Rightarrow> bool" where
  "check_message m =
     (case map_of m ''jsonrpc'' of
        Some (JStr u) \<Rightarrow> u = ''2.0''
      | _ \<Rightarrow> False)"

text \<open>\<^verbatim>\<open>pop_incoming\<close>: the message (\<open>None\<close> for Python's \<^verbatim>\<open>None\<close>) and the connection after.\<close>

definition pop_incoming :: "json_lib \<Rightarrow> conn \<Rightarrow> message option \<times> conn" where
  "pop_incoming J c =
     (case incoming c of
        [] \<Rightarrow> (None, c)
      | serialized # rest \<Rightarrow>
          let c1 = c\<lparr>incoming := rest\<rparr>
          in (case try_loads J serialized of
                None \<Rightarrow> (None, close c1)
              | Some m \<Rightarrow>
                  if \<not> check_message m then (None, close c1)
                  else if \<not> reading c1 \<and> \<not> closed c1
                          \<and> int (length (incoming c1)) < max_incoming_messages c1
                       then (Some m, c1\<lparr>read_watch := True, reading := True\<rparr>)
                       else (Some m, c1)))"

text \<open>\<^verbatim>\<open>send_method_return\<close>, \<^verbatim>\<open>send_error\<close>, \<^verbatim>\<open>send_signal\<close>. \<^verbatim>\<open>message['id']\<close> raises \<^verbatim>\<open>KeyError\<close> without the key.\<close>

definition method_return_message :: "json \<Rightarrow> json \<Rightarrow> message" where
  "method_return_message i v = [(''jsonrpc'', JStr ''2.0''), (''id'', i), (''result'', v)]"

definition error_message_of :: "json \<Rightarrow> structured_error \<Rightarrow> message" where
  "error_message_of i err =
     [(''jsonrpc'', JStr ''2.0''), (''id'', i),
      (''error'', JDict [(''code'', JStr (error_name err)),
                         (''message'', error_message err),
                         (''data'', error_detail err)])]"

definition send_method_return :: "json_lib \<Rightarrow> message \<Rightarrow> json \<Rightarrow> conn \<Rightarrow> py_error + conn" where
  "send_method_return J m v c =
     (case map_of m ''id'' of
        None \<Rightarrow> Inl KeyError
      | Some i \<Rightarrow> Inr (push_outgoing J (method_return_message i v) c))"

definition send_error :: "json_lib \<Rightarrow> message \<Rightarrow> structured_error \<Rightarrow> conn \<Rightarrow> py_error + conn" where
  "send_error J m err c =
     (case map_of m ''id'' of
        None \<Rightarrow> Inl KeyError
      | Some i \<Rightarrow> Inr (push_outgoing J (error_message_of i err) c))"

definition send_signal :: "json_lib \<Rightarrow> string \<Rightarrow> json list \<Rightarrow> conn \<Rightarrow> conn" where
  "send_signal J signal args c =
     push_outgoing J [(''jsonrpc'', JStr ''2.0''), (''method'', JStr signal), (''params'', JList args)] c"

subsection \<open>The handler registry\<close>

text \<open>\<^verbatim>\<open>len(args)\<close>: a \<^verbatim>\<open>TypeError\<close> for a value that has no length.\<close>

definition py_len :: "json \<Rightarrow> py_error + nat" where
  "py_len v =
     (case v of
        JList xs \<Rightarrow> Inr (length xs)
      | JStr s \<Rightarrow> Inr (length s)
      | JDict d \<Rightarrow> Inr (length d)
      | _ \<Rightarrow> Inl TypeError)"

text \<open>The arguments that \<^verbatim>\<open>handler(*args)\<close> passes: the items of the iteration.\<close>

definition py_star :: "json \<Rightarrow> json list" where
  "py_star v =
     (case v of
        JList xs \<Rightarrow> xs
      | JStr s \<Rightarrow> map (\<lambda>ch. JStr [ch]) s
      | JDict d \<Rightarrow> map (\<lambda>kv. JStr (fst kv)) d
      | _ \<Rightarrow> [])"

text \<open>\<^verbatim>\<open>_check_callable\<close>\<close>

definition check_callable :: "method_handler \<Rightarrow> json \<Rightarrow> py_error + bool" where
  "check_callable h args =
     (if \<not> is_callable h then Inr False
      else
        let minargs0 = int (spec_args h);
            minargs1 = (if spec_defaults h \<noteq> 0 then minargs0 - int (spec_defaults h) else minargs0);
            maxargs0 = (if spec_varargs h then None else Some (int (spec_args h)));
            minargs = minargs1 - 1;
            maxargs = (case maxargs0 of
                         None \<Rightarrow> None
                       | Some n \<Rightarrow> if n \<noteq> 0 then Some (n - 1) else Some n)
        in case py_len args of
             Inl e \<Rightarrow> Inl e
           | Inr n \<Rightarrow> Inr (minargs \<le> int n \<and> (case maxargs of None \<Rightarrow> True | Some k \<Rightarrow> int n \<le> k)))"

text \<open>
  \<^verbatim>\<open>name not in self.methods\<close> and \<^verbatim>\<open>self.methods[name]\<close>: the tables are keyed by
  strings; a list or a dictionary cannot be hashed (\<^verbatim>\<open>TypeError\<close>), any other value
  that is not a string is not a key.
\<close>

definition lookup_handler :: "(string \<rightharpoonup> method_handler) \<Rightarrow> json \<Rightarrow> py_error + (string \<times> method_handler) option" where
  "lookup_handler tbl name =
     (case name of
        JStr s \<Rightarrow> Inr (case tbl s of None \<Rightarrow> None | Some h \<Rightarrow> Some (s, h))
      | JList _ \<Rightarrow> Inl TypeError
      | JDict _ \<Rightarrow> Inl TypeError
      | _ \<Rightarrow> Inr None)"

text \<open>
  The calls of \<^verbatim>\<open>early_response\<close> and \<^verbatim>\<open>delay_response\<close> that a method handler makes
  while it runs, in order.
\<close>

fun run_actions :: "json_lib \<Rightarrow> message \<Rightarrow> handler_action list \<Rightarrow> handler \<times> conn \<Rightarrow> py_error + handler \<times> conn" where
  "run_actions J m [] hc = Inr hc"
| "run_actions J m (EarlyResponse v # as) (h, c) =
     (case send_method_return J m v c of
        Inl e \<Rightarrow> Inl e
      | Inr c' \<Rightarrow> run_actions J m as (h\<lparr>response_sent := True\<rparr>, c'))"
| "run_actions J m (DelayResponse # as) (h, c) =
     run_actions J m as (h\<lparr>response_sent := True\<rparr>, c)"

text \<open>\<^verbatim>\<open>message.get('params', ())\<close>\<close>

definition params_of :: "message \<Rightarrow> json" where
  "params_of m = (case map_of m ''params'' of None \<Rightarrow> JList [] | Some a \<Rightarrow> a)"

definition reply_error :: "json_lib \<Rightarrow> message \<Rightarrow> structured_error \<Rightarrow> handler \<times> conn \<Rightarrow> py_error + handler \<times> conn" where
  "reply_error J m err hc =
     (case send_error J m err (snd hc) of
        Inl e \<Rightarrow> Inl e
      | Inr c' \<Rightarrow> Inr (fst hc, c'))"

text \<open>
  \<^verbatim>\<open>_dispatch_method_call\<close>. An exception that escapes (\<open>Inl\<close>) is raised before
  anything is changed.
\<close>

definition dispatch_method_call :: "json_lib \<Rightarrow> message \<Rightarrow> handler \<Rightarrow> conn \<Rightarrow> py_error + handler \<times> conn" where
  "dispatch_method_call J m h c =
     (case map_of m ''method'' of
        None \<Rightarrow> Inl KeyError
      | Some name \<Rightarrow>
          (case lookup_handler (methods h) name of
             Inl e \<Rightarrow> Inl e
           | Inr None \<Rightarrow>
               reply_error J m
                 (MessageBusError ''NotFound'' (Some (JStr ''No such method call'')) None) (h, c)
           | Inr (Some (s, mh)) \<Rightarrow>
               (case check_callable mh (params_of m) of
                  Inl e \<Rightarrow> Inl e
                | Inr False \<Rightarrow>
                    reply_error J m
                      (MessageBusError ''InvalidCall'' (Some (JStr ''Wrong number of arguments'')) None)
                      (h, c)
                | Inr True \<Rightarrow>
                    let h1 = h\<lparr>response_sent := False,
                               invoked := invoked h @ [(s, py_star (params_of m))]\<rparr>;
                        run = body mh (py_star (params_of m))
                    in (case run_actions J m (actions run) (h1, c) of
                          Inl e \<Rightarrow> Inl e
                        | Inr (h2, c2) \<Rightarrow>
                            (case outcome run of
                               RaisesStructured e \<Rightarrow> reply_error J m e (h2, c2)
                             | RaisesOther \<Rightarrow>
                                 reply_error J m (MessageBusError ''UncaughtException'' None None) (h2, c2)
                             | Returns response \<Rightarrow>
                                 if \<not> response_sent h2
                                 then (case send_method_return J m response c2 of
                                         Inl e \<Rightarrow> Inl e
                                       | Inr c3 \<Rightarrow> Inr (h2, c3))
                                 else Inr (h2, c2))))))"

text \<open>
  \<^verbatim>\<open>_dispatch_signal\<close>. Whatever the signal handler raises is caught and logged, and
  \<^verbatim>\<open>early_response\<close> and \<^verbatim>\<open>delay_response\<close> raise \<^verbatim>\<open>RuntimeError\<close> for a signal, so
  the call leaves no trace but in \<open>invoked\<close>.
\<close>

definition dispatch_signal :: "json_lib \<Rightarrow> message \<Rightarrow> handler \<Rightarrow> conn \<Rightarrow> py_error + handler \<times> conn" where
  "dispatch_signal J m h c =
     (case map_of m ''method'' of
        None \<Rightarrow> Inr (h, c)
      | Some name \<Rightarrow>
          (case lookup_handler (signal_handlers h) name of
             Inl e \<Rightarrow> Inl e
           | Inr None \<Rightarrow> Inr (h, c)
           | Inr (Some (s, mh)) \<Rightarrow>
               (case check_callable mh (params_of m) of
                  Inl e \<Rightarrow> Inl e
                | Inr False \<Rightarrow> Inr (h, c)
                | Inr True \<Rightarrow> Inr (h\<lparr>invoked := invoked h @ [(s, py_star (params_of m))]\<rparr>, c))))"

text \<open>\<^verbatim>\<open>MessageBusHandler.dispatch\<close>\<close>

definition handler_dispatch :: "json_lib \<Rightarrow> message \<Rightarrow> handler \<Rightarrow> conn \<Rightarrow> py_error + handler \<times> conn" where
  "handler_dispatch J m h c =
     (if has_key m ''id'' \<and> has_key m ''method'' then dispatch_method_call J m h c
      else if \<not> has_key m ''id'' \<and> has_key m ''method'' then dispatch_signal J m h c
      else Inr (h, c))"

subsection \<open>Dispatch and the call table\<close>

text \<open>
  The key \<^verbatim>\<open>message['id']\<close> as a key of \<^verbatim>\<open>method_calls\<close>, whose keys are the integers
  of \<^verbatim>\<open>next_serial\<close>: Python's \<^verbatim>\<open>True\<close> and \<^verbatim>\<open>False\<close> are equal to 1 and 0 and hash
  alike; a string or \<^verbatim>\<open>None\<close> is no key of the table; a list or a dictionary cannot
  be hashed (\<^verbatim>\<open>TypeError\<close>).
\<close>

definition py_key :: "json \<Rightarrow> py_error + int option" where
  "py_key v =
     (case v of
        JInt n \<Rightarrow> Inr (Some n)
      | JBool b \<Rightarrow> Inr (Some (if b then 1 else 0))
      | JList _ \<Rightarrow> Inl TypeError
      | JDict _ \<Rightarrow> Inl TypeError
      | _ \<Rightarrow> Inr None)"

text \<open>
  The body of the loop of \<^verbatim>\<open>dispatch\<close>, for the message \<open>m\<close> that was popped. \<open>Inl\<close>
  is an exception that leaves \<^verbatim>\<open>dispatch\<close>; it is raised before anything is changed.
  \<^verbatim>\<open>spawn\<close> is the one of the base class, which calls the handler at once.
\<close>

definition route :: "json_lib \<Rightarrow> message \<Rightarrow> conn \<Rightarrow> py_error + conn" where
  "route J m c =
     (if has_key m ''result'' \<or> has_key m ''error'' then
        (case map_of m ''id'' of
           None \<Rightarrow> Inl KeyError
         | Some key \<Rightarrow>
             (case py_key key of
                Inl e \<Rightarrow> Inl e
              | Inr None \<Rightarrow> Inr c
              | Inr (Some k) \<Rightarrow>
                  (case method_calls c k of
                     None \<Rightarrow> Inr c
                   | Some callback \<Rightarrow>
                       Inr (c\<lparr>method_calls := (method_calls c)(k := None),
                              scheduled := scheduled c @ [RunReply callback m]\<rparr>))))
      else
        (case handler c of
           Some h \<Rightarrow>
             (case handler_dispatch J m h c of
                Inl e \<Rightarrow> Inl e
              | Inr (h', c') \<Rightarrow> Inr (c'\<lparr>handler := Some h'\<rparr>))
         | None \<Rightarrow> Inr c))"

text \<open>An index that the scanner returns is not negative (used for the termination of the read pump).\<close>

lemma scan_ge: "scan st d i buf = Inr r \<Longrightarrow> r = - 1 \<or> int i \<le> r"
proof (induction buf arbitrary: st d i)
  case Nil then show ?case by simp
next
  case (Cons c buf)
  show ?case
  proof (cases "scan_char st d c")
    case (Inl e) with Cons.prems show ?thesis by simp
  next
    case (Inr p)
    obtain st' d' where p: "p = (st', d')" by (cases p)
    show ?thesis
    proof (cases "st' = s_object \<and> d' = 0")
      case True with Cons.prems Inr p show ?thesis by simp
    next
      case False
      with Cons.prems Inr p have "scan st' d' (Suc i) buf = Inr r" by simp
      from Cons.IH [OF this] show ?thesis by auto
    qed
  qed
qed

lemma find_message_end_index: "find_message_end buf = Inr pos \<Longrightarrow> pos \<noteq> - 1 \<Longrightarrow> 0 \<le> pos"
  unfolding find_message_end_def using scan_ge [of s_preamble 0 0 buf pos] by simp

text \<open>
  \<^verbatim>\<open>dispatch\<close>: the loop pops a message and routes it until \<^verbatim>\<open>pop_incoming\<close> gives
  nothing (\<^verbatim>\<open>None\<close>, or an empty dictionary, which \<^verbatim>\<open>not message\<close> also holds of). An
  exception that leaves the loop is recorded in \<open>faults\<close>.
\<close>

lemma incoming_push_outgoing [simp]: "incoming (push_outgoing J m c) = incoming c"
  by (simp add: push_outgoing_def Let_def)

lemma incoming_run_actions:
  "run_actions J m as hc = Inr hc' \<Longrightarrow> incoming (snd hc') = incoming (snd hc)"
proof (induction J m as hc rule: run_actions.induct)
  case (1 J m hc)
  then show ?case by simp
next
  case (2 J m v as h c)
  then show ?case by (auto simp: send_method_return_def split: sum.splits option.splits)
next
  case (3 J m as h c)
  then show ?case by simp
qed

lemma incoming_reply_error:
  "reply_error J m err hc = Inr hc' \<Longrightarrow> incoming (snd hc') = incoming (snd hc)"
  by (auto simp: reply_error_def send_error_def split: sum.splits option.splits)

lemma incoming_dispatch_method_call:
  assumes "dispatch_method_call J m h c = Inr hc'"
  shows "incoming (snd hc') = incoming c"
proof -
  note splits = sum.splits option.splits bool.splits outcome.splits prod.splits if_splits
  from assms show ?thesis
    unfolding dispatch_method_call_def Let_def
    by (auto split: splits dest!: incoming_reply_error incoming_run_actions
             simp: send_method_return_def)
qed

lemma incoming_handler_dispatch:
  "handler_dispatch J m h c = Inr hc' \<Longrightarrow> incoming (snd hc') = incoming c"
  by (auto simp: handler_dispatch_def dispatch_signal_def
           split: if_splits sum.splits option.splits bool.splits prod.splits
           dest: incoming_dispatch_method_call)

lemma incoming_route: "route J m c = Inr c' \<Longrightarrow> incoming c' = incoming c"
  by (auto simp: route_def split: if_splits sum.splits option.splits prod.splits
           dest: incoming_handler_dispatch)

lemma incoming_close [simp]: "incoming (close c) = incoming c"
  by (simp add: close_def run_callbacks_def)

lemma incoming_pop_incoming:
  "incoming (snd (pop_incoming J c)) = tl (incoming c)"
  by (simp add: pop_incoming_def Let_def split: list.splits option.splits)

lemma pop_incoming_shorter:
  assumes "(Some m, c1) = pop_incoming J c"
  shows "length (incoming c1) < length (incoming c)"
proof -
  from assms have ne: "incoming c \<noteq> []" by (auto simp: pop_incoming_def)
  from assms have "c1 = snd (pop_incoming J c)" by (metis snd_conv)
  then have "incoming c1 = tl (incoming c)" by (simp add: incoming_pop_incoming)
  with ne show ?thesis by (cases "incoming c") simp_all
qed

function dispatch :: "json_lib \<Rightarrow> conn \<Rightarrow> conn" where
  "dispatch J c =
     (case pop_incoming J c of
        (None, c1) \<Rightarrow> c1
      | (Some m, c1) \<Rightarrow>
          if m = [] then c1
          else (case route J m c1 of
                  Inl e \<Rightarrow> c1\<lparr>faults := faults c1 @ [e]\<rparr>
                | Inr c2 \<Rightarrow> dispatch J c2))"
  by pat_completeness auto
termination
  apply (relation "measure (\<lambda>(J, c). length (incoming c))")
   apply simp
  apply simp
  apply (metis incoming_route pop_incoming_shorter)
  done

declare dispatch.simps [simp del]

text \<open>\<^verbatim>\<open>call_method\<close> of the base class. The request it builds:\<close>

definition request_message :: "int \<Rightarrow> string \<Rightarrow> json list \<Rightarrow> message" where
  "request_message serial method args =
     [(''jsonrpc'', JStr ''2.0''), (''id'', JInt serial),
      (''method'', JStr method), (''params'', JList args)]"

definition call_method :: "json_lib \<Rightarrow> string \<Rightarrow> json list \<Rightarrow> callback option \<Rightarrow> nat option \<Rightarrow> conn \<Rightarrow> conn" where
  "call_method J method args callback tmo c =
     (let message = request_message (next_serial c) method args;
          c1 = push_outgoing J message (c\<lparr>next_serial := next_serial c + 1\<rparr>)
      in case callback of
           None \<Rightarrow> c1
         | Some cb \<Rightarrow>
             let method_return_callback = \<lparr>call_id = next_serial c, reply_callback = cb\<rparr>;
                 tm = \<lparr>after = (case tmo of None \<Rightarrow> timeout c1 | Some t \<Rightarrow> t),
                       fires = method_return_callback\<rparr>
             in c1\<lparr>timers := (timers c1)(next_serial c \<mapsto> tm),
                   method_calls := (method_calls c1)(next_serial c \<mapsto> method_return_callback)\<rparr>)"

text \<open>
  \<^verbatim>\<open>MessageBusConnection.call_method\<close>: with a callback it is the call of the base
  class; without one it builds a waiter \<open>w\<close> and registers the callback that switches
  to it, after which the caller blocks in \<^verbatim>\<open>waiter.get()\<close>.
\<close>

definition connection_call_method :: "json_lib \<Rightarrow> string \<Rightarrow> json list \<Rightarrow> callback option \<Rightarrow> nat option \<Rightarrow> nat \<Rightarrow> conn \<Rightarrow> conn" where
  "connection_call_method J method args callback tmo w c =
     (case callback of
        Some cb \<Rightarrow> call_method J method args (Some cb) tmo c
      | None \<Rightarrow> call_method J method args (Some (WaiterSwitch w)) tmo c)"

text \<open>The error response that the closure builds when its timer fires.\<close>

definition timeout_error :: "int \<Rightarrow> message" where
  "timeout_error k =
     error_message_of (JInt k)
       (StructuredError ''Timeout'' (Some (JStr ''Method call timed out'')) None)"

text \<open>
  The closure \<^verbatim>\<open>method_return_callback(reply=None)\<close>: called by its timer without a
  reply, by the loop with the reply that \<^verbatim>\<open>dispatch\<close> scheduled. \<^verbatim>\<open>del\<close> raises
  \<^verbatim>\<open>KeyError\<close> when the entry is gone.
\<close>

definition method_return_callback :: "closure \<Rightarrow> message option \<Rightarrow> conn \<Rightarrow> py_error + conn" where
  "method_return_callback clo reply c =
     (case reply of
        None \<Rightarrow>
          (case method_calls c (call_id clo) of
             None \<Rightarrow> Inl KeyError
           | Some _ \<Rightarrow>
               Inr (c\<lparr>method_calls := (method_calls c)(call_id clo := None),
                      deliveries := deliveries c
                        @ [(call_id clo, reply_callback clo, timeout_error (call_id clo))]\<rparr>))
      | Some r \<Rightarrow>
          Inr (c\<lparr>timers := (timers c)(call_id clo := None),
                 deliveries := deliveries c @ [(call_id clo, reply_callback clo, r)]\<rparr>))"

subsection \<open>The read pump and the write pump\<close>

text \<open>
  What \<^verbatim>\<open>socket.recv(16384)\<close> gives: bytes (none when the peer has disconnected), the
  error of a socket that would block, or another socket error. What
  \<^verbatim>\<open>socket.send\<close> gives: the number of bytes sent, or one of the two errors.
\<close>

datatype recv_result = RecvData string | RecvWouldBlock | RecvError

datatype send_result = Sent nat | SendWouldBlock | SendError

text \<open>
  The inner loop of \<^verbatim>\<open>_do_read\<close>: frames are moved from the buffer to the queue while
  the scanner finds one. The \<^verbatim>\<open>ValueError\<close> of the scanner leaves \<^verbatim>\<open>_do_read\<close>, with
  the frames moved so far.
\<close>

function read_frames :: "conn \<Rightarrow> py_error option \<times> conn" where
  "read_frames c =
     (if inbuf c = [] then (None, c)
      else (case find_message_end (inbuf c) of
              Inl e \<Rightarrow> (Some e, c)
            | Inr pos \<Rightarrow>
                if pos = - 1 then (None, c)
                else read_frames
                       (c\<lparr>incoming := incoming c @ [take (nat (pos + 1)) (inbuf c)],
                          inbuf := drop (nat (pos + 1)) (inbuf c)\<rparr>)))"
  by pat_completeness auto
termination
proof (relation "measure (\<lambda>c. length (inbuf c))")
  show "wf (measure (\<lambda>c. length (inbuf c)))" by simp
next
  fix c :: conn and pos
  assume ne: "inbuf c \<noteq> []" and f: "find_message_end (inbuf c) = Inr pos" and p: "pos \<noteq> - 1"
  from f p have "0 \<le> pos" by (rule find_message_end_index)
  with ne show "(c\<lparr>incoming := incoming c @ [take (nat (pos + 1)) (inbuf c)],
                  inbuf := drop (nat (pos + 1)) (inbuf c)\<rparr>, c) \<in> measure (\<lambda>c. length (inbuf c))"
    by (cases "inbuf c") simp_all
qed

declare read_frames.simps [simp del]

text \<open>
  One pass of the outer loop of \<^verbatim>\<open>_do_read\<close> up to the call of \<^verbatim>\<open>recv\<close>: \<open>Inl\<close> when
  the loop is left (by an exception or a \<^verbatim>\<open>break\<close>), \<open>Inr\<close> when \<^verbatim>\<open>recv\<close> comes next.
\<close>

definition read_pass :: "conn \<Rightarrow> (py_error option \<times> conn) + conn" where
  "read_pass c =
     (case read_frames c of
        (Some e, c1) \<Rightarrow> Inl (Some e, c1)
      | (None, c1) \<Rightarrow>
          if max_message_size c1 < length (inbuf c1) then Inl (None, close c1)
          else if max_incoming_messages c1 < int (length (incoming c1))
               then Inl (None, c1\<lparr>read_watch := False, reading := False\<rparr>)
               else Inr c1)"

text \<open>
  The outer loop, over the results of the successive calls of \<^verbatim>\<open>recv\<close>; when the list
  is used up the socket would block. \<^verbatim>\<open>buf.decode('ascii')\<close> raises
  \<^verbatim>\<open>UnicodeDecodeError\<close> for a byte above 127.
\<close>

fun read_loop :: "recv_result list \<Rightarrow> conn \<Rightarrow> py_error option \<times> conn" where
  "read_loop [] c = (case read_pass c of Inl r \<Rightarrow> r | Inr c1 \<Rightarrow> (None, c1))"
| "read_loop (r # rs) c =
     (case read_pass c of
        Inl res \<Rightarrow> res
      | Inr c1 \<Rightarrow>
          (case r of
             RecvWouldBlock \<Rightarrow> (None, c1)
           | RecvError \<Rightarrow> (None, close c1)
           | RecvData buf \<Rightarrow>
               if buf = [] then (None, close c1)
               else if list_ex (\<lambda>ch. (128::nat) \<le> of_char ch) buf then (Some UnicodeDecodeError, c1)
               else read_loop rs (c1\<lparr>inbuf := inbuf c1 @ buf\<rparr>)))"

text \<open>\<^verbatim>\<open>_do_read\<close>: an exception skips the scheduling of \<^verbatim>\<open>dispatch\<close> and reaches the loop.\<close>

definition do_read :: "recv_result list \<Rightarrow> conn \<Rightarrow> conn" where
  "do_read rs c =
     (case read_loop rs c of
        (Some e, c1) \<Rightarrow> c1\<lparr>faults := faults c1 @ [e]\<rparr>
      | (None, c1) \<Rightarrow>
          if incoming c1 \<noteq> [] then c1\<lparr>scheduled := scheduled c1 @ [RunDispatch]\<rparr> else c1)"

text \<open>
  \<^verbatim>\<open>_do_write\<close>. \<open>load\<close> is the head of its loop: \<open>None\<close> is the \<^verbatim>\<open>break\<close> on an empty
  queue.
\<close>

definition load :: "conn \<Rightarrow> conn option" where
  "load c =
     (if outbuf c = [] then
        (case outgoing c of
           [] \<Rightarrow> None
         | m # ms \<Rightarrow> Some (c\<lparr>outbuf := m, outgoing := ms\<rparr>))
      else Some c)"

fun write_loop :: "send_result list \<Rightarrow> conn \<Rightarrow> conn" where
  "write_loop [] c = (case load c of None \<Rightarrow> c | Some c1 \<Rightarrow> c1)"
| "write_loop (r # rs) c =
     (case load c of
        None \<Rightarrow> c
      | Some c1 \<Rightarrow>
          (case r of
             SendWouldBlock \<Rightarrow> c1
           | SendError \<Rightarrow> close c1
           | Sent nbytes \<Rightarrow> write_loop rs (c1\<lparr>outbuf := drop nbytes (outbuf c1)\<rparr>)))"

definition do_write :: "send_result list \<Rightarrow> conn \<Rightarrow> conn" where
  "do_write rs c =
     (let c1 = write_loop rs c
      in if outbuf c1 = [] then c1\<lparr>write_watch := False, writing := False\<rparr> else c1)"

subsection \<open>The event loop\<close>

text \<open>
  What can happen to a connection: the loop calls one of its callbacks (the socket
  is readable or writable while the watch is active, a started timer fires, the
  oldest scheduled callback runs), or the application calls a method of the
  connection. An event that cannot happen in a state (a stopped watch or timer, an
  empty queue of callbacks) leaves it as it is.
\<close>

datatype event =
    Readable "recv_result list"
  | Writable "send_result list"
  | TimerFire int
  | RunCallback
  | CallMethod string "json list" "callback option" "nat option"
  | SendSignal string "json list"
  | AddCallback callback
  | Close

definition run_closure :: "closure \<Rightarrow> message option \<Rightarrow> conn \<Rightarrow> conn" where
  "run_closure clo reply c =
     (case method_return_callback clo reply c of
        Inl e \<Rightarrow> c\<lparr>faults := faults c @ [e]\<rparr>
      | Inr c' \<Rightarrow> c')"

definition step :: "json_lib \<Rightarrow> event \<Rightarrow> conn \<Rightarrow> conn" where
  "step J e c =
     (case e of
        Readable rs \<Rightarrow> if read_watch c then do_read rs c else c
      | Writable rs \<Rightarrow> if write_watch c then do_write rs c else c
      | TimerFire k \<Rightarrow>
          (case timers c k of
             None \<Rightarrow> c
           | Some tm \<Rightarrow> run_closure (fires tm) None (c\<lparr>timers := (timers c)(k := None)\<rparr>))
      | RunCallback \<Rightarrow>
          (case scheduled c of
             [] \<Rightarrow> c
           | d # ds \<Rightarrow>
               (case d of
                  RunDispatch \<Rightarrow> dispatch J (c\<lparr>scheduled := ds\<rparr>)
                | RunReply clo m \<Rightarrow> run_closure clo (Some m) (c\<lparr>scheduled := ds\<rparr>)))
      | CallMethod method args callback tmo \<Rightarrow> call_method J method args callback tmo c
      | SendSignal signal args \<Rightarrow> send_signal J signal args c
      | AddCallback cb \<Rightarrow> add_callback cb c
      | Close \<Rightarrow> close c)"

fun exec :: "json_lib \<Rightarrow> event list \<Rightarrow> conn \<Rightarrow> conn" where
  "exec J [] c = c"
| "exec J (e # es) c = exec J es (step J e c)"

section \<open>Proofs: the frame scanner\<close>

text \<open>
  A text passes when the scanner, inside an object at any depth \<open>d \<ge> 1\<close>, reads
  through it and is back in the object state at the same depth, without returning.
\<close>

definition passes :: "string \<Rightarrow> bool" where
  "passes w = (\<forall>d i rest. 1 \<le> d \<longrightarrow> scan s_object d i (w @ rest) = scan s_object d (i + length w) rest)"

lemma passes_Nil: "passes []" by (simp add: passes_def)

lemma passes_append: "passes u \<Longrightarrow> passes v \<Longrightarrow> passes (u @ v)"
  by (simp add: passes_def add.assoc)

lemma passes_plain: "c \<noteq> lbrace \<Longrightarrow> c \<noteq> rbrace \<Longrightarrow> c \<noteq> dquote \<Longrightarrow> passes [c]"
  by (simp add: passes_def scan_char_def)

lemma passes_all_plain: "list_all (\<lambda>c. c \<noteq> lbrace \<and> c \<noteq> rbrace \<and> c \<noteq> dquote) w \<Longrightarrow> passes w"
proof (induction w)
  case Nil show ?case by (rule passes_Nil)
next
  case (Cons c w)
  then have "passes [c]" "passes w" by (simp_all add: passes_plain)
  then have "passes ([c] @ w)" by (rule passes_append)
  then show ?case by simp
qed

lemma passes_braces: assumes "passes w" shows "passes (lbrace # w @ [rbrace])"
  unfolding passes_def
proof (intro allI impI)
  fix d :: int and i rest assume d: "1 \<le> d"
  have "scan s_object d i ((lbrace # w @ [rbrace]) @ rest) = scan s_object (d + 1) (Suc i) (w @ rbrace # rest)"
    using d by (simp add: scan_char_def)
  also have "\<dots> = scan s_object (d + 1) (Suc i + length w) (rbrace # rest)"
    using assms d by (simp add: passes_def)
  also have "\<dots> = scan s_object d (i + length (lbrace # w @ [rbrace])) rest"
    using d by (simp add: scan_char_def)
  finally show "scan s_object d i ((lbrace # w @ [rbrace]) @ rest) = scan s_object d (i + length (lbrace # w @ [rbrace])) rest" .
qed

lemma scan_string_plain:
  "c \<noteq> dquote \<Longrightarrow> c \<noteq> backslash \<Longrightarrow> scan s_string d i (c # rest) = scan s_string d (Suc i) rest"
  by (simp add: scan_char_def)

lemma scan_string_escape:
  "scan s_string d i (backslash # e # rest) = scan s_string d (Suc (Suc i)) rest"
  by (simp add: scan_char_def)

lemma hexdigit_plain: "hexdigit h \<Longrightarrow> h \<noteq> dquote \<and> h \<noteq> backslash"
  by (auto simp: hexdigit_def)

lemma scan_chars: "json_chars cs \<Longrightarrow> scan s_string d i (cs @ rest) = scan s_string d (i + length cs) rest"
proof (induction cs arbitrary: i rule: json_chars.induct)
  case chars_end
  show ?case by simp
next
  case (chars_plain c cs)
  then show ?case by (simp add: scan_string_plain del: scan.simps)
next
  case (chars_escape e cs)
  then show ?case by (simp add: scan_string_escape del: scan.simps)
next
  case (chars_unicode h1 h2 h3 h4 cs)
  then show ?case by (simp add: scan_string_escape scan_string_plain hexdigit_plain del: scan.simps)
qed

lemma passes_string: assumes "json_string s" shows "passes s"
proof -
  from assms obtain cs where s: "s = dquote # cs @ [dquote]" and cs: "json_chars cs"
    by (auto simp: json_string_def)
  have "scan s_object d i (s @ rest) = scan s_object d (i + length s) rest" if "1 \<le> d" for d i rest
  proof -
    have "scan s_object d i (s @ rest) = scan s_string d (Suc i) (cs @ dquote # rest)"
      unfolding s by (simp add: scan_char_def)
    also have "\<dots> = scan s_string d (Suc i + length cs) (dquote # rest)"
      by (rule scan_chars [OF cs])
    also have "\<dots> = scan s_object d (i + length s) rest"
      unfolding s using that by (simp add: scan_char_def)
    finally show ?thesis .
  qed
  then show ?thesis by (simp add: passes_def)
qed

lemma ws_plain:
  "c = CHR 0x20 \<or> c = CHR 0x09 \<or> c = CHR 0x0A \<or> c = CHR 0x0D
   \<Longrightarrow> c \<noteq> lbrace \<and> c \<noteq> rbrace \<and> c \<noteq> dquote"
  by auto

lemma digit_plain: "digit c \<Longrightarrow> c \<noteq> lbrace \<and> c \<noteq> rbrace \<and> c \<noteq> dquote"
  by (auto simp: digit_def)

lemma passes_ws: "json_ws w \<Longrightarrow> passes w"
  unfolding json_ws_def
  by (rule passes_all_plain, erule list.pred_mono_strong) (rule ws_plain)

lemma digits_plain: "list_all digit w \<Longrightarrow> list_all (\<lambda>c. c \<noteq> lbrace \<and> c \<noteq> rbrace \<and> c \<noteq> dquote) w"
  by (erule list.pred_mono_strong) (rule digit_plain)

lemma passes_digits: "list_all digit w \<Longrightarrow> passes w"
  by (rule passes_all_plain) (rule digits_plain)

lemma passes_number: assumes "json_number w" shows "passes w"
proof -
  from assms obtain s n f e where w: "w = s @ n @ f @ e" and s: "s = [] \<or> s = ''-''"
    and n: "json_int n" and f: "json_frac f" and e: "json_exp e"
    by (auto simp: json_number_def)
  have ps: "passes s" using s by (auto intro: passes_all_plain passes_Nil)
  have "list_all digit n" using n by (auto simp: json_int_def digit_def)
  then have pn: "passes n" by (rule passes_digits)
  have pf: "passes f"
  proof (cases "f = []")
    case True then show ?thesis by (simp add: passes_Nil)
  next
    case False
    with f obtain d where fd: "f = ''.'' @ d" and d: "list_all digit d" by (auto simp: json_frac_def)
    have "passes ''.''" by (rule passes_plain) simp_all
    moreover have "passes d" using d by (rule passes_digits)
    ultimately show ?thesis unfolding fd by (rule passes_append)
  qed
  have pe: "passes e"
  proof (cases "e = []")
    case True then show ?thesis by (simp add: passes_Nil)
  next
    case False
    with e obtain c s d where e: "e = [c] @ s @ d" and c: "c = CHR ''e'' \<or> c = CHR ''E''"
      and s: "s = [] \<or> s = ''+'' \<or> s = ''-''" and d: "list_all digit d"
      by (auto simp: json_exp_def)
    have "passes [c]" using c by (auto intro: passes_plain)
    moreover have "passes s" using s by (auto intro: passes_plain passes_Nil)
    moreover have "passes d" using d by (rule passes_digits)
    ultimately show ?thesis unfolding e by (intro passes_append)
  qed
  show ?thesis unfolding w using ps pn pf pe by (intro passes_append)
qed

lemma passes_colon: "passes '':''" by (rule passes_plain) simp_all
lemma passes_comma: "passes '',''" by (rule passes_plain) simp_all

lemma passes_member:
  assumes "json_ws w1" "json_string k" "json_ws w2" "json_ws w3" "passes v" "json_ws w4"
  shows "passes (w1 @ k @ w2 @ '':'' @ w3 @ v @ w4)"
proof -
  have "passes w1" "passes k" "passes w2" "passes w3" "passes w4"
    using assms by (simp_all add: passes_ws passes_string)
  with assms(5) passes_colon show ?thesis by (intro passes_append)
qed

lemma passes_json:
  "json_value v \<Longrightarrow> passes v"
  "json_object ob \<Longrightarrow> passes ob"
  "json_members ms \<Longrightarrow> passes ms"
  "json_elements es \<Longrightarrow> passes es"
proof (induction rule: json_value_json_object_json_members_json_elements.inducts)
  case (value_string s) then show ?case by (rule passes_string)
next
  case (value_number n) then show ?case by (rule passes_number)
next
  case value_true show ?case by (rule passes_all_plain) simp
next
  case value_false show ?case by (rule passes_all_plain) simp
next
  case value_null show ?case by (rule passes_all_plain) simp
next
  case (value_object ob) then show ?case by simp
next
  case (value_array_empty w)
  have "passes ''[''" by (rule passes_plain) simp_all
  moreover have "passes '']''" by (rule passes_plain) simp_all
  moreover have "passes w" using value_array_empty by (rule passes_ws)
  ultimately have "passes (''['' @ w @ '']'')"
    by (intro passes_append)
  then show ?case by simp
next
  case (value_array es)
  have "passes ''[''" by (rule passes_plain) simp_all
  moreover have "passes '']''" by (rule passes_plain) simp_all
  ultimately have "passes (''['' @ es @ '']'')"
    using value_array by (intro passes_append)
  then show ?case by simp
next
  case (object_empty w) then show ?case by (intro passes_braces passes_ws)
next
  case (object_members ms) then show ?case by (intro passes_braces)
next
  case (members_one w1 k w2 w3 v w4)
  then show ?case by (intro passes_member)
next
  case (members_more w1 k w2 w3 v w4 ms)
  then have "passes (w1 @ k @ w2 @ '':'' @ w3 @ v @ w4)" by (intro passes_member)
  moreover have "passes ('','' @ ms)"
    using passes_comma members_more.IH(2) by (rule passes_append)
  ultimately have "passes ((w1 @ k @ w2 @ '':'' @ w3 @ v @ w4) @ '','' @ ms)"
    by (rule passes_append)
  then show ?case by simp
next
  case (elements_one w1 v w2)
  then have "passes w1" "passes v" "passes w2" by (simp_all add: passes_ws)
  then show ?case by (intro passes_append)
next
  case (elements_more w1 v w2 es)
  then have "passes w1" "passes v" "passes w2" "passes es" by (simp_all add: passes_ws)
  then show ?case using passes_comma by (intro passes_append)
qed

lemma isspace_not_lbrace: "isspace c \<Longrightarrow> c \<noteq> lbrace"
  by (auto simp: isspace_def)

lemma scan_preamble_ws:
  "list_all isspace ws \<Longrightarrow> scan s_preamble d i (ws @ rest) = scan s_preamble d (i + length ws) rest"
  by (induction ws arbitrary: i) (simp_all add: scan_char_def isspace_not_lbrace)

lemma json_object_shape:
  assumes "json_object ob"
  obtains inner where "ob = lbrace # inner @ [rbrace]" and "passes inner"
  using assms
proof (cases rule: json_object.cases)
  case (object_empty w)
  then show ?thesis using that passes_ws by blast
next
  case (object_members ms)
  then show ?thesis using that passes_json(3) by blast
qed

lemma scan_top_object:
  assumes "passes inner"
  shows "scan s_preamble d i (lbrace # inner @ rbrace # rest) = Inr (int (Suc (i + length inner)))"
proof -
  have "scan s_preamble d i (lbrace # inner @ rbrace # rest) = scan s_object 1 (Suc i) (inner @ rbrace # rest)"
    by (simp add: scan_char_def)
  also have "\<dots> = scan s_object 1 (Suc i + length inner) (rbrace # rest)"
    using assms by (simp add: passes_def)
  also have "\<dots> = Inr (int (Suc (i + length inner)))"
    by (simp add: scan_char_def)
  finally show ?thesis .
qed

lemma scan_prefix_none:
  "scan st d i (p @ q) = Inr (int k) \<Longrightarrow> i + length p \<le> k \<Longrightarrow> scan st d i p = Inr (- 1)"
proof (induction p arbitrary: st d i)
  case Nil then show ?case by simp
next
  case (Cons c p)
  show ?case
  proof (cases "scan_char st d c")
    case (Inl e) with Cons.prems show ?thesis by simp
  next
    case (Inr r)
    obtain st' d' where r: "r = (st', d')" by (cases r)
    show ?thesis
    proof (cases "st' = s_object \<and> d' = 0")
      case True with Cons.prems Inr r show ?thesis by simp
    next
      case False
      with Cons.prems Inr r have "scan st' d' (Suc i) (p @ q) = Inr (int k)" by simp
      moreover from Cons.prems have "Suc i + length p \<le> k" by simp
      ultimately have "scan st' d' (Suc i) p = Inr (- 1)" by (rule Cons.IH)
      with False Inr r show ?thesis by simp
    qed
  qed
qed

text \<open>
  Claim C2 (framing). For a buffer that starts with whitespace \<open>ws\<close> followed by a
  complete top-level JSON object \<open>ob\<close> and then anything (further objects, whitespace,
  a prefix of a further object), \<open>find_message_end\<close> returns exactly the index of the
  last byte of \<open>ob\<close>; quoted braces and escapes inside \<open>ob\<close> are content, since
  \<open>ob\<close> ranges over all JSON objects. When the whitespace is followed only by a proper
  prefix of an object (or by nothing), it returns the sentinel \<open>- 1\<close>. When the
  whitespace is followed by a character that is neither whitespace nor \<open>{\<close>, it fails
  with \<open>ValueError\<close>.
\<close>

theorem find_message_end_framing:
  assumes ws: "list_all isspace ws" and ob: "json_object ob"
  shows "find_message_end (ws @ ob @ rest) = Inr (int (length ws + length ob) - 1)
    \<and> (\<forall>p q. p @ q = ob \<and> q \<noteq> [] \<longrightarrow> find_message_end (ws @ p) = Inr (- 1))
    \<and> find_message_end ws = Inr (- 1)
    \<and> (\<forall>c. \<not> isspace c \<and> c \<noteq> lbrace \<longrightarrow> find_message_end (ws @ c # rest) = Inl ValueError)"
proof -
  from ob obtain inner where shape: "ob = lbrace # inner @ [rbrace]" and inner: "passes inner"
    by (rule json_object_shape)
  have full: "find_message_end (ws @ ob @ r) = Inr (int (length ws + length ob) - 1)" for r
    unfolding find_message_end_def shape
    using scan_preamble_ws [OF ws, of 0 0 "lbrace # inner @ rbrace # r"]
      scan_top_object [OF inner, of 0 "length ws" r]
    by simp
  have part: "find_message_end (ws @ p) = Inr (- 1)" if "p @ q = ob \<and> q \<noteq> []" for p q
  proof -
    from that have q: "ob = p @ q" and "q \<noteq> []" by auto
    then have len: "length p < length ob" by simp
    then have k: "int (length ws + length ob) - 1 = int (length ws + length ob - 1)"
      by linarith
    have "scan s_preamble 0 0 (ws @ ob @ []) = Inr (int (length ws + length ob - 1))"
      using full [of "[]"] unfolding k find_message_end_def .
    then have "scan s_preamble 0 0 ((ws @ p) @ q) = Inr (int (length ws + length ob - 1))"
      unfolding q by simp
    moreover have "0 + length (ws @ p) \<le> length ws + length ob - 1" using len by simp
    ultimately show ?thesis unfolding find_message_end_def by (rule scan_prefix_none)
  qed
  have none: "find_message_end ws = Inr (- 1)"
    using scan_preamble_ws [OF ws, of 0 0 "[]"] by (simp add: find_message_end_def)
  have bad: "find_message_end (ws @ c # rest) = Inl ValueError" if "\<not> isspace c \<and> c \<noteq> lbrace" for c
    using scan_preamble_ws [OF ws, of 0 0 "c # rest"] that
    by (simp add: find_message_end_def scan_char_def)
  from full part none bad show ?thesis by blast
qed

text \<open>
  The first framing scenario of the specification: two spaces, the object
  \<^verbatim>\<open>{"a":"}}"}\<close>, then \<^verbatim>\<open>{"b":1}\<close>.
\<close>

theorem find_message_end_framing_witness:
  "list_all isspace ''  ''
   \<and> json_object [lbrace, dquote, CHR ''a'', dquote, CHR '':'', dquote, rbrace, rbrace, dquote, rbrace]
   \<and> find_message_end (''  '' @ [lbrace, dquote, CHR ''a'', dquote, CHR '':'', dquote, rbrace, rbrace, dquote, rbrace]
         @ [lbrace, dquote, CHR ''b'', dquote, CHR '':'', CHR ''1'', rbrace]) = Inr 11
   \<and> find_message_end (''  '' @ [lbrace, dquote, CHR ''a'', dquote, CHR '':'', dquote, rbrace]) = Inr (- 1)
   \<and> find_message_end ''  '' = Inr (- 1)
   \<and> find_message_end (''  '' @ CHR ''x'' # [lbrace, dquote, CHR ''b'', dquote, CHR '':'', CHR ''1'', rbrace])
       = Inl ValueError"
proof -
  let ?ob = "[lbrace, dquote, CHR ''a'', dquote, CHR '':'', dquote, rbrace, rbrace, dquote, rbrace]"
  let ?rest = "[lbrace, dquote, CHR ''b'', dquote, CHR '':'', CHR ''1'', rbrace]"
  have ws: "list_all isspace ''  ''" by (simp add: isspace_def)
  have "json_chars ''a''" by (intro json_chars.intros) simp_all
  then have k: "json_string [dquote, CHR ''a'', dquote]" by (simp add: json_string_def)
  have "json_chars [rbrace, rbrace]" by (intro json_chars.intros) simp_all
  then have "json_string [dquote, rbrace, rbrace, dquote]" by (simp add: json_string_def)
  then have v: "json_value [dquote, rbrace, rbrace, dquote]" by (rule value_string)
  have e: "json_ws []" by (simp add: json_ws_def)
  have "json_members ([] @ [dquote, CHR ''a'', dquote] @ [] @ '':'' @ [] @ [dquote, rbrace, rbrace, dquote] @ [])"
    using e k e e v e by (rule members_one)
  then have "json_object (lbrace # [dquote, CHR ''a'', dquote, CHR '':'', dquote, rbrace, rbrace, dquote] @ [rbrace])"
    by (intro object_members) simp
  then have ob: "json_object ?ob" by simp
  have p: "[lbrace, dquote, CHR ''a'', dquote, CHR '':'', dquote, rbrace] @ [rbrace, dquote, rbrace] = ?ob
      \<and> [rbrace, dquote, rbrace] \<noteq> []" by simp
  have x: "\<not> isspace CHR ''x'' \<and> CHR ''x'' \<noteq> lbrace" by (simp add: isspace_def)
  note framing = find_message_end_framing [OF ws ob, of ?rest]
  from framing have full: "find_message_end (''  '' @ ?ob @ ?rest) = Inr 11" by simp
  from framing have "\<forall>p q. p @ q = ?ob \<and> q \<noteq> [] \<longrightarrow> find_message_end (''  '' @ p) = Inr (- 1)"
    by (elim conjE)
  with p have part: "find_message_end (''  '' @ [lbrace, dquote, CHR ''a'', dquote, CHR '':'', dquote, rbrace]) = Inr (- 1)"
    by blast
  from framing have none: "find_message_end ''  '' = Inr (- 1)" by (elim conjE)
  from framing have "\<forall>c. \<not> isspace c \<and> c \<noteq> lbrace \<longrightarrow> find_message_end (''  '' @ c # ?rest) = Inl ValueError"
    by (elim conjE)
  with x have bad: "find_message_end (''  '' @ CHR ''x'' # ?rest) = Inl ValueError" by blast
  from ws ob full part none bad show ?thesis by (intro conjI)
qed

lemma scan_inside:
  "st \<noteq> s_preamble \<Longrightarrow> 1 \<le> d \<Longrightarrow>
   \<exists>r. scan st d i buf = Inr r \<and>
     (r = - 1 \<or> (int i \<le> r \<and> r < int (i + length buf) \<and> buf ! (nat r - i) = rbrace))"
proof (induction buf arbitrary: st d i)
  case Nil then show ?case by simp
next
  case (Cons c buf)
  have "\<exists>st' d'. scan_char st d c = Inr (st', d')"
    using Cons.prems(1) by (cases st) (simp_all add: scan_char_def)
  then obtain st' d' where step: "scan_char st d c = Inr (st', d')" by blast
  show ?case
  proof (cases "st' = s_object \<and> d' = 0")
    case True
    with step Cons.prems have "c = rbrace"
      by (cases st) (auto simp: scan_char_def split: if_splits)
    with True step show ?thesis by simp
  next
    case False
    with step Cons.prems have st': "st' \<noteq> s_preamble" and d': "1 \<le> d'"
      by (cases st; auto simp: scan_char_def split: if_splits)+
    from Cons.IH [OF st' d', of "Suc i"] obtain r where
      r: "scan st' d' (Suc i) buf = Inr r"
      and rr: "r = - 1 \<or> (int (Suc i) \<le> r \<and> r < int (Suc i + length buf) \<and> buf ! (nat r - Suc i) = rbrace)"
      by blast
    have "scan st d i (c # buf) = Inr r" using step False r by auto
    moreover have "r = - 1 \<or> (int i \<le> r \<and> r < int (i + length (c # buf)) \<and> (c # buf) ! (nat r - i) = rbrace)"
    proof (cases "r = - 1")
      case True then show ?thesis by simp
    next
      case False
      with rr have a: "int (Suc i) \<le> r" and b: "r < int (Suc i + length buf)"
        and c: "buf ! (nat r - Suc i) = rbrace" by auto
      from a have "nat r - i = Suc (nat r - Suc i)" by linarith
      with a b c show ?thesis by simp
    qed
    ultimately show ?thesis by blast
  qed
qed

lemma scan_preamble:
  "(scan s_preamble d i buf = Inl ValueError \<longleftrightarrow> (\<exists>c\<in>set (takeWhile (\<lambda>c. c \<noteq> lbrace) buf). \<not> isspace c))
   \<and> (\<forall>e. scan s_preamble d i buf = Inl e \<longrightarrow> e = ValueError)
   \<and> (\<forall>r. scan s_preamble d i buf = Inr r \<longrightarrow>
        r = - 1 \<or> (int i \<le> r \<and> r < int (i + length buf) \<and> buf ! (nat r - i) = rbrace))"
proof (induction buf arbitrary: i)
  case Nil show ?case by simp
next
  case (Cons c buf)
  consider (brace) "c = lbrace" | (bad) "c \<noteq> lbrace" "\<not> isspace c" | (space) "c \<noteq> lbrace" "isspace c"
    by blast
  then show ?case
  proof cases
    case brace
    from scan_inside [of s_object 1 "Suc i" buf] obtain r where
      r: "scan s_object 1 (Suc i) buf = Inr r"
      and rr: "r = - 1 \<or> (int (Suc i) \<le> r \<and> r < int (Suc i + length buf) \<and> buf ! (nat r - Suc i) = rbrace)"
      by auto
    have eq: "scan s_preamble d i (c # buf) = Inr r" using brace r by (simp add: scan_char_def)
    have "r = - 1 \<or> (int i \<le> r \<and> r < int (i + length (c # buf)) \<and> (c # buf) ! (nat r - i) = rbrace)"
    proof (cases "r = - 1")
      case True then show ?thesis by simp
    next
      case False
      with rr have a: "int (Suc i) \<le> r" and b: "r < int (Suc i + length buf)"
        and c: "buf ! (nat r - Suc i) = rbrace" by auto
      from a have "nat r - i = Suc (nat r - Suc i)" by linarith
      with a b c show ?thesis by simp
    qed
    with eq brace show ?thesis by simp
  next
    case bad
    then show ?thesis by (simp add: scan_char_def)
  next
    case space
    then have eq: "scan s_preamble d i (c # buf) = scan s_preamble d (Suc i) buf"
      by (simp add: scan_char_def)
    note IH = Cons.IH [of "Suc i"]
    have "\<forall>r. scan s_preamble d (Suc i) buf = Inr r \<longrightarrow>
        r = - 1 \<or> (int i \<le> r \<and> r < int (i + length (c # buf)) \<and> (c # buf) ! (nat r - i) = rbrace)"
    proof (intro allI impI)
      fix r assume "scan s_preamble d (Suc i) buf = Inr r"
      with IH have rr: "r = - 1 \<or> (int (Suc i) \<le> r \<and> r < int (Suc i + length buf) \<and> buf ! (nat r - Suc i) = rbrace)"
        by blast
      show "r = - 1 \<or> (int i \<le> r \<and> r < int (i + length (c # buf)) \<and> (c # buf) ! (nat r - i) = rbrace)"
      proof (cases "r = - 1")
        case True then show ?thesis by simp
      next
        case False
        with rr have a: "int (Suc i) \<le> r" and b: "r < int (Suc i + length buf)"
          and c: "buf ! (nat r - Suc i) = rbrace" by auto
        from a have "nat r - i = Suc (nat r - Suc i)" by linarith
        with a b c show ?thesis by simp
      qed
    qed
    with IH space show ?thesis unfolding eq by simp
  qed
qed

text \<open>
  Claim C10 (safety of the scanner). \<open>find_message_end\<close> is a total function. It
  raises exactly when a character that is not whitespace stands before the first
  \<open>{\<close> (anywhere, when the buffer has no \<open>{\<close>), and then it raises
  \<open>ValueError\<close>. Otherwise it returns \<open>- 1\<close> or an index \<open>r\<close> with
  \<open>0 \<le> r < length buf\<close> at which the buffer holds \<open>}\<close>.
\<close>

theorem find_message_end_safe:
  "(find_message_end buf = Inl ValueError \<longleftrightarrow> (\<exists>c\<in>set (takeWhile (\<lambda>c. c \<noteq> lbrace) buf). \<not> isspace c))
   \<and> (\<forall>e. find_message_end buf = Inl e \<longrightarrow> e = ValueError)
   \<and> (\<forall>r. find_message_end buf = Inr r \<longrightarrow>
        r = - 1 \<or> (0 \<le> r \<and> r < int (length buf) \<and> buf ! nat r = rbrace))"
  using scan_preamble [of 0 0 buf] by (simp add: find_message_end_def)

theorem find_message_end_safe_witness:
  "find_message_end [CHR '' '', lbrace, dquote, rbrace, dquote, rbrace, lbrace] = Inr 5
   \<and> (5::int) < int (length [CHR '' '', lbrace, dquote, rbrace, dquote, rbrace, lbrace])
   \<and> [CHR '' '', lbrace, dquote, rbrace, dquote, rbrace, lbrace] ! nat 5 = rbrace
   \<and> find_message_end [CHR '' '', lbrace, dquote, rbrace, dquote, rbrace, lbrace] \<noteq> Inl ValueError"
proof -
  have r: "find_message_end [CHR '' '', lbrace, dquote, rbrace, dquote, rbrace, lbrace] = Inr 5"
    by (simp add: find_message_end_def scan_char_def isspace_def)
  from find_message_end_safe [of "[CHR '' '', lbrace, dquote, rbrace, dquote, rbrace, lbrace]"] r
  show ?thesis by auto
qed


section \<open>Proofs: the connection\<close>

subsection \<open>What the functions of the connection change\<close>

text \<open>The connection after a sequence of messages was pushed to the outgoing queue.\<close>

definition pushed :: "json_lib \<Rightarrow> conn \<Rightarrow> conn \<Rightarrow> bool" where
  "pushed J c c' = (\<exists>ms. c' = fold (push_outgoing J) ms c)"

lemma pushed_refl: "pushed J c c"
  unfolding pushed_def by (rule exI [of _ "[]"]) simp

lemma pushed_push: "pushed J c (push_outgoing J m c)"
  unfolding pushed_def by (rule exI [of _ "[m]"]) simp

lemma pushed_trans: "pushed J a b \<Longrightarrow> pushed J b c \<Longrightarrow> pushed J a c"
  unfolding pushed_def
proof (elim exE)
  fix ms ns assume "b = fold (push_outgoing J) ms a" "c = fold (push_outgoing J) ns b"
  then have "c = fold (push_outgoing J) (ms @ ns) a" by simp
  then show "\<exists>ms. c = fold (push_outgoing J) ms a" ..
qed

lemma pushed_send_method_return: "send_method_return J m v c = Inr c' \<Longrightarrow> pushed J c c'"
  by (auto simp: send_method_return_def pushed_push split: option.splits)

lemma pushed_send_error: "send_error J m err c = Inr c' \<Longrightarrow> pushed J c c'"
  by (auto simp: send_error_def pushed_push split: option.splits)

lemma pushed_reply_error: "reply_error J m err hc = Inr hc' \<Longrightarrow> pushed J (snd hc) (snd hc')"
  by (auto simp: reply_error_def split: sum.splits dest: pushed_send_error)

lemma pushed_run_actions: "run_actions J m as hc = Inr hc' \<Longrightarrow> pushed J (snd hc) (snd hc')"
proof (induction J m as hc rule: run_actions.induct)
  case (1 J m hc)
  then show ?case by (simp add: pushed_refl)
next
  case (2 J m v as h c)
  from "2.prems" obtain c1 where s: "send_method_return J m v c = Inr c1"
    and r: "run_actions J m as (h\<lparr>response_sent := True\<rparr>, c1) = Inr hc'"
    by (auto split: sum.splits)
  from s have "pushed J c c1" by (rule pushed_send_method_return)
  moreover from "2.IH" [OF s r] have "pushed J c1 (snd hc')" by simp
  ultimately show ?case by (auto intro: pushed_trans)
next
  case (3 J m as h c)
  then show ?case by simp
qed

lemma pushed_dispatch_method_call:
  assumes "dispatch_method_call J m h c = Inr hc'"
  shows "pushed J c (snd hc')"
proof -
  from assms obtain name where name: "map_of m ''method'' = Some name"
    by (auto simp: dispatch_method_call_def split: option.splits)
  from assms name obtain found where found: "lookup_handler (methods h) name = Inr found"
    by (auto simp: dispatch_method_call_def split: sum.splits)
  show ?thesis
  proof (cases found)
    case None
    with assms name found show ?thesis
      by (auto simp: dispatch_method_call_def dest: pushed_reply_error)
  next
    case (Some p)
    obtain s mh where p: "p = (s, mh)" by (cases p)
    from assms name found Some p obtain ok where ok: "check_callable mh (params_of m) = Inr ok"
      by (auto simp: dispatch_method_call_def split: sum.splits)
    show ?thesis
    proof (cases ok)
      case False
      with assms name found Some p ok show ?thesis
        by (auto simp: dispatch_method_call_def dest: pushed_reply_error)
    next
      case True
      let ?h1 = "h\<lparr>response_sent := False, invoked := invoked h @ [(s, py_star (params_of m))]\<rparr>"
      let ?run = "body mh (py_star (params_of m))"
      from assms name found Some p ok True obtain h2 c2 where
        ra: "run_actions J m (actions ?run) (?h1, c) = Inr (h2, c2)"
        by (auto simp: dispatch_method_call_def Let_def split: sum.splits)
      from ra have c2: "pushed J c c2" by (auto dest: pushed_run_actions)
      from assms name found Some p ok True ra
      have "pushed J c2 (snd hc')"
        by (auto simp: dispatch_method_call_def Let_def pushed_refl
                 split: outcome.splits if_splits sum.splits
                 dest: pushed_reply_error pushed_send_method_return)
      with c2 show ?thesis by (rule pushed_trans)
    qed
  qed
qed

lemma pushed_dispatch_signal: "dispatch_signal J m h c = Inr hc' \<Longrightarrow> pushed J c (snd hc')"
  by (auto simp: dispatch_signal_def pushed_refl
           split: option.splits sum.splits bool.splits prod.splits)

lemma pushed_handler_dispatch: "handler_dispatch J m h c = Inr hc' \<Longrightarrow> pushed J c (snd hc')"
  by (auto simp: handler_dispatch_def pushed_refl split: if_splits
           dest: pushed_dispatch_method_call pushed_dispatch_signal)

text \<open>The three ways in which the body of the dispatch loop changes the connection.\<close>

lemma route_cases:
  assumes "route J m c = Inr c'"
  obtains (same) "c' = c"
  | (reply) k clo where "method_calls c k = Some clo"
      and "c' = c\<lparr>method_calls := (method_calls c)(k := None),
                    scheduled := scheduled c @ [RunReply clo m]\<rparr>"
  | (handled) h' c1 where "pushed J c c1" and "c' = c1\<lparr>handler := Some h'\<rparr>"
proof (cases "has_key m ''result'' \<or> has_key m ''error''")
  case True
  with assms show ?thesis
    by (auto simp: route_def split: option.splits sum.splits intro: same reply)
next
  case False
  show ?thesis
  proof (cases "handler c")
    case None
    with assms False show ?thesis by (auto simp: route_def intro: same)
  next
    case (Some h)
    with assms False obtain h' c1 where hd: "handler_dispatch J m h c = Inr (h', c1)"
      and c': "c' = c1\<lparr>handler := Some h'\<rparr>"
      by (auto simp: route_def split: sum.splits)
    from hd have "pushed J c c1" by (auto dest: pushed_handler_dispatch)
    then show ?thesis using c' by (rule handled)
  qed
qed

text \<open>The four results of \<^verbatim>\<open>pop_incoming\<close>.\<close>

lemma pop_incoming_cases:
  obtains (empty) "incoming c = []" and "pop_incoming J c = (None, c)"
  | (invalid) s rest where "incoming c = s # rest"
      and "pop_incoming J c = (None, close (c\<lparr>incoming := rest\<rparr>))"
      and "try_loads J s = None \<or> (\<exists>m. try_loads J s = Some m \<and> \<not> check_message m)"
  | (resume) s rest m where "incoming c = s # rest" and "try_loads J s = Some m"
      and "check_message m"
      and "\<not> reading c" and "\<not> closed c" and "int (length rest) < max_incoming_messages c"
      and "pop_incoming J c = (Some m, c\<lparr>incoming := rest, read_watch := True, reading := True\<rparr>)"
  | (plain) s rest m where "incoming c = s # rest" and "try_loads J s = Some m"
      and "check_message m"
      and "\<not> (\<not> reading c \<and> \<not> closed c \<and> int (length rest) < max_incoming_messages c)"
      and "pop_incoming J c = (Some m, c\<lparr>incoming := rest\<rparr>)"
proof (cases "incoming c")
  case Nil
  then show ?thesis by (auto simp: pop_incoming_def intro: empty)
next
  case (Cons s rest)
  show ?thesis
  proof (cases "try_loads J s")
    case None
    with Cons show ?thesis by (auto simp: pop_incoming_def intro: invalid)
  next
    case (Some m)
    show ?thesis
    proof (cases "check_message m")
      case False
      with Cons Some show ?thesis by (auto simp: pop_incoming_def intro: invalid)
    next
      case True
      show ?thesis
      proof (cases "\<not> reading c \<and> \<not> closed c \<and> int (length rest) < max_incoming_messages c")
        case True
        with Cons Some \<open>check_message m\<close> show ?thesis
          by (intro resume [of s rest m]) (simp_all add: pop_incoming_def)
      next
        case False
        with Cons Some \<open>check_message m\<close> show ?thesis
          by (intro plain [of s rest m]) (auto simp: pop_incoming_def)
      qed
    qed
  qed
qed


subsection \<open>Every step is a sequence of elementary updates\<close>

text \<open>
  The elementary updates that the functions of the connection are made of. An
  invariant that every one of them keeps is kept by every step of the event loop.
\<close>

inductive update :: "json_lib \<Rightarrow> conn \<Rightarrow> conn \<Rightarrow> bool" for J where
  u_close: "update J c (close c)"
| u_push: "update J c (push_outgoing J m c)"
| u_handler: "update J c (c\<lparr>handler := h\<rparr>)"
| u_pop: "incoming c = s # rest \<Longrightarrow> update J c (c\<lparr>incoming := rest\<rparr>)"
| u_resume: "update J c (c\<lparr>read_watch := True, reading := True\<rparr>)"
| u_reply: "method_calls c k = Some clo \<Longrightarrow>
     update J c (c\<lparr>method_calls := (method_calls c)(k := None),
                    scheduled := scheduled c @ [RunReply clo m]\<rparr>)"
| u_fault: "update J c (c\<lparr>faults := faults c @ [e]\<rparr>)"
| u_frame: "update J c (c\<lparr>incoming := incoming c @ [f], inbuf := b\<rparr>)"
| u_throttle: "update J c (c\<lparr>read_watch := False, reading := False\<rparr>)"
| u_recv: "update J c (c\<lparr>inbuf := inbuf c @ buf\<rparr>)"
| u_schedule: "update J c (c\<lparr>scheduled := scheduled c @ [RunDispatch]\<rparr>)"
| u_load: "update J c (c\<lparr>outbuf := m, outgoing := ms\<rparr>)"
| u_sent: "update J c (c\<lparr>outbuf := drop n (outbuf c)\<rparr>)"
| u_idle: "update J c (c\<lparr>write_watch := False, writing := False\<rparr>)"
| u_timer: "timers c k = Some tm \<Longrightarrow>
     update J c (run_closure (fires tm) None (c\<lparr>timers := (timers c)(k := None)\<rparr>))"
| u_run_dispatch: "scheduled c = RunDispatch # ds \<Longrightarrow> update J c (c\<lparr>scheduled := ds\<rparr>)"
| u_run_reply: "scheduled c = RunReply clo m # ds \<Longrightarrow>
     update J c (run_closure clo (Some m) (c\<lparr>scheduled := ds\<rparr>))"
| u_add_callback: "update J c (add_callback cb c)"

abbreviation updates :: "json_lib \<Rightarrow> conn \<Rightarrow> conn \<Rightarrow> bool" where
  "updates J \<equiv> (update J)\<^sup>*\<^sup>*"

lemma updates_one: "update J c c' \<Longrightarrow> updates J c c'"
  by (rule r_into_rtranclp)

lemma updates_then: "updates J a b \<Longrightarrow> update J b c \<Longrightarrow> updates J a c"
  by (rule rtranclp.rtrancl_into_rtrancl)

lemma updates_trans: "updates J a b \<Longrightarrow> updates J b c \<Longrightarrow> updates J a c"
  by (rule rtranclp_trans)

lemma updates_pushed: "pushed J c c' \<Longrightarrow> updates J c c'"
proof -
  have "updates J c (fold (push_outgoing J) ms c)" for ms
  proof (induction ms arbitrary: c)
    case Nil
    show ?case by simp
  next
    case (Cons m ms)
    have "updates J c (push_outgoing J m c)" by (rule updates_one) (rule u_push)
    then show ?case using Cons [of "push_outgoing J m c"] by (simp add: updates_trans)
  qed
  then show "pushed J c c' \<Longrightarrow> updates J c c'" by (auto simp: pushed_def)
qed

lemma updates_route: "route J m c = Inr c' \<Longrightarrow> updates J c c'"
proof (erule route_cases)
  show "c' = c \<Longrightarrow> updates J c c'" by simp
next
  fix k clo
  assume "method_calls c k = Some clo"
    and "c' = c\<lparr>method_calls := (method_calls c)(k := None),
                  scheduled := scheduled c @ [RunReply clo m]\<rparr>"
  then show "updates J c c'" by (auto intro: updates_one u_reply)
next
  fix h' c1
  assume "pushed J c c1" and c': "c' = c1\<lparr>handler := Some h'\<rparr>"
  then have "updates J c c1" by (simp add: updates_pushed)
  moreover have "update J c1 c'" unfolding c' by (rule u_handler)
  ultimately show "updates J c c'" by (rule updates_then)
qed

lemma updates_pop_incoming: "updates J c (snd (pop_incoming J c))"
proof (cases rule: pop_incoming_cases [of c J])
  case empty
  then show ?thesis by simp
next
  case (invalid s rest)
  have "update J c (c\<lparr>incoming := rest\<rparr>)" using invalid(1) by (rule u_pop)
  moreover have "update J (c\<lparr>incoming := rest\<rparr>) (close (c\<lparr>incoming := rest\<rparr>))" by (rule u_close)
  ultimately show ?thesis using invalid(2) by (auto intro: updates_one updates_then)
next
  case (resume s rest m)
  have "update J c (c\<lparr>incoming := rest\<rparr>)" using resume(1) by (rule u_pop)
  moreover have "update J (c\<lparr>incoming := rest\<rparr>) (c\<lparr>incoming := rest, read_watch := True, reading := True\<rparr>)"
    using u_resume [of J "c\<lparr>incoming := rest\<rparr>"] by simp
  ultimately show ?thesis using resume(7) by (auto intro: updates_one updates_then)
next
  case (plain s rest m)
  have "update J c (c\<lparr>incoming := rest\<rparr>)" using plain(1) by (rule u_pop)
  then show ?thesis using plain(5) by (auto intro: updates_one)
qed

lemma updates_dispatch: "updates J c (dispatch J c)"
proof (induction J c rule: dispatch.induct)
  case (1 J c)
  obtain r c1 where p: "pop_incoming J c = (r, c1)" by (cases "pop_incoming J c")
  with updates_pop_incoming [of J c] have c1: "updates J c c1" by simp
  show ?case
  proof (cases r)
    case None
    with p c1 show ?thesis by (simp add: dispatch.simps [of J c])
  next
    case (Some m)
    show ?thesis
    proof (cases "m = []")
      case True
      with p Some c1 show ?thesis by (simp add: dispatch.simps [of J c])
    next
      case False
      show ?thesis
      proof (cases "route J m c1")
        case (Inl e)
        have "update J c1 (c1\<lparr>faults := faults c1 @ [e]\<rparr>)" by (rule u_fault)
        with c1 have "updates J c (c1\<lparr>faults := faults c1 @ [e]\<rparr>)" by (rule updates_then)
        with p Some False Inl show ?thesis by (simp add: dispatch.simps [of J c])
      next
        case (Inr c2)
        from "1.IH" [OF p [symmetric] Some False Inr]
        have "updates J c2 (dispatch J c2)" .
        moreover from Inr have "updates J c1 c2" by (rule updates_route)
        ultimately have "updates J c (dispatch J c2)"
          using c1 by (blast intro: updates_trans)
        with p Some False Inr show ?thesis by (simp add: dispatch.simps [of J c])
      qed
    qed
  qed
qed

lemma updates_read_frames: "updates J c (snd (read_frames c))"
proof (induction c rule: read_frames.induct)
  case (1 c)
  show ?case
  proof (cases "inbuf c = []")
    case True
    then show ?thesis by (simp add: read_frames.simps [of c])
  next
    case False
    show ?thesis
    proof (cases "find_message_end (inbuf c)")
      case (Inl e)
      with False show ?thesis by (simp add: read_frames.simps [of c])
    next
      case (Inr pos)
      show ?thesis
      proof (cases "pos = - 1")
        case True
        with False Inr show ?thesis by (simp add: read_frames.simps [of c])
      next
        case neq: False
        let ?c1 = "c\<lparr>incoming := incoming c @ [take (nat (pos + 1)) (inbuf c)],
                      inbuf := drop (nat (pos + 1)) (inbuf c)\<rparr>"
        have "update J c ?c1" by (rule u_frame)
        moreover from "1.IH" [OF False Inr neq] have "updates J ?c1 (snd (read_frames ?c1))" .
        ultimately have "updates J c (snd (read_frames ?c1))"
          by (blast intro: updates_one updates_trans)
        with False Inr neq show ?thesis by (simp add: read_frames.simps [of c])
      qed
    qed
  qed
qed

definition after_pass :: "(py_error option \<times> conn) + conn \<Rightarrow> conn" where
  "after_pass r = (case r of Inl x \<Rightarrow> snd x | Inr c \<Rightarrow> c)"

lemma updates_read_pass: "updates J c (after_pass (read_pass c))"
proof -
  obtain e c1 where rf: "read_frames c = (e, c1)" by (cases "read_frames c")
  with updates_read_frames [of J c] have c1: "updates J c c1" by simp
  have "update J c1 (close c1)" by (rule u_close)
  with c1 have a: "updates J c (close c1)" by (rule updates_then)
  have "update J c1 (c1\<lparr>read_watch := False, reading := False\<rparr>)" by (rule u_throttle)
  with c1 have b: "updates J c (c1\<lparr>read_watch := False, reading := False\<rparr>)" by (rule updates_then)
  from rf c1 a b show ?thesis
    by (cases e) (simp_all add: read_pass_def after_pass_def)
qed

lemma updates_read_loop: "updates J c (snd (read_loop rs c))"
proof (induction rs arbitrary: c)
  case Nil
  from updates_read_pass [of J c] show ?case
    by (cases "read_pass c") (simp_all add: after_pass_def)
next
  case (Cons r rs)
  show ?case
  proof (cases "read_pass c")
    case (Inl res)
    with updates_read_pass [of J c] show ?thesis by (simp add: after_pass_def)
  next
    case (Inr c1)
    with updates_read_pass [of J c] have c1: "updates J c c1" by (simp add: after_pass_def)
    have "update J c1 (close c1)" by (rule u_close)
    with c1 have cl: "updates J c (close c1)" by (rule updates_then)
    show ?thesis
    proof (cases r)
      case (RecvData buf)
      have "update J c1 (c1\<lparr>inbuf := inbuf c1 @ buf\<rparr>)" by (rule u_recv)
      with c1 have "updates J c (c1\<lparr>inbuf := inbuf c1 @ buf\<rparr>)" by (rule updates_then)
      then have "updates J c (snd (read_loop rs (c1\<lparr>inbuf := inbuf c1 @ buf\<rparr>)))"
        using Cons [of "c1\<lparr>inbuf := inbuf c1 @ buf\<rparr>"] by (rule updates_trans)
      with Inr RecvData c1 cl show ?thesis by simp
    next
      case RecvWouldBlock
      with Inr c1 show ?thesis by simp
    next
      case RecvError
      with Inr cl show ?thesis by simp
    qed
  qed
qed

lemma updates_do_read: "updates J c (do_read rs c)"
proof -
  obtain e c1 where rl: "read_loop rs c = (e, c1)" by (cases "read_loop rs c")
  with updates_read_loop [of J c rs] have c1: "updates J c c1" by simp
  have "update J c1 (c1\<lparr>faults := faults c1 @ [x]\<rparr>)" for x by (rule u_fault)
  with c1 have a: "updates J c (c1\<lparr>faults := faults c1 @ [x]\<rparr>)" for x by (rule updates_then)
  have "update J c1 (c1\<lparr>scheduled := scheduled c1 @ [RunDispatch]\<rparr>)" by (rule u_schedule)
  with c1 have b: "updates J c (c1\<lparr>scheduled := scheduled c1 @ [RunDispatch]\<rparr>)" by (rule updates_then)
  from rl c1 a b show ?thesis by (cases e) (simp_all add: do_read_def)
qed

lemma updates_load: "load c = Some c1 \<Longrightarrow> updates J c c1"
  by (auto simp: load_def split: if_splits list.splits intro: updates_one u_load)

lemma updates_write_loop: "updates J c (write_loop rs c)"
proof (induction rs arbitrary: c)
  case Nil
  show ?case by (cases "load c") (simp_all add: updates_load)
next
  case (Cons r rs)
  show ?case
  proof (cases "load c")
    case None
    then show ?thesis by simp
  next
    case (Some c1)
    then have c1: "updates J c c1" by (rule updates_load)
    have "update J c1 (close c1)" by (rule u_close)
    with c1 have cl: "updates J c (close c1)" by (rule updates_then)
    show ?thesis
    proof (cases r)
      case (Sent n)
      have "update J c1 (c1\<lparr>outbuf := drop n (outbuf c1)\<rparr>)" by (rule u_sent)
      with c1 have "updates J c (c1\<lparr>outbuf := drop n (outbuf c1)\<rparr>)" by (rule updates_then)
      then have "updates J c (write_loop rs (c1\<lparr>outbuf := drop n (outbuf c1)\<rparr>))"
        using Cons [of "c1\<lparr>outbuf := drop n (outbuf c1)\<rparr>"] by (rule updates_trans)
      with Some Sent show ?thesis by simp
    next
      case SendWouldBlock
      with Some c1 show ?thesis by simp
    next
      case SendError
      with Some cl show ?thesis by simp
    qed
  qed
qed

lemma updates_do_write: "updates J c (do_write rs c)"
proof -
  have "update J (write_loop rs c) ((write_loop rs c)\<lparr>write_watch := False, writing := False\<rparr>)"
    by (rule u_idle)
  with updates_write_loop [of J c rs]
  have "updates J c ((write_loop rs c)\<lparr>write_watch := False, writing := False\<rparr>)"
    by (rule updates_then)
  with updates_write_loop [of J c rs] show ?thesis by (simp add: do_write_def Let_def)
qed

lemma updates_step:
  assumes "\<And>method args callback tmo. e \<noteq> CallMethod method args callback tmo"
  shows "updates J c (step J e c)"
proof (cases e)
  case (Readable rs)
  then show ?thesis by (simp add: step_def updates_do_read)
next
  case (Writable rs)
  then show ?thesis by (simp add: step_def updates_do_write)
next
  case (TimerFire k)
  then show ?thesis
    by (auto simp: step_def split: option.splits intro: updates_one u_timer)
next
  case RunCallback
  show ?thesis
  proof (cases "scheduled c")
    case Nil
    with RunCallback show ?thesis by (simp add: step_def)
  next
    case (Cons d ds)
    show ?thesis
    proof (cases d)
      case RunDispatch
      with Cons have "update J c (c\<lparr>scheduled := ds\<rparr>)" by (auto intro: u_run_dispatch)
      then have "updates J c (dispatch J (c\<lparr>scheduled := ds\<rparr>))"
        using updates_dispatch [of J "c\<lparr>scheduled := ds\<rparr>"]
        by (blast intro: updates_one updates_trans)
      with RunCallback Cons RunDispatch show ?thesis by (simp add: step_def)
    next
      case (RunReply clo m)
      with Cons have "update J c (run_closure clo (Some m) (c\<lparr>scheduled := ds\<rparr>))"
        by (auto intro: u_run_reply)
      with RunCallback Cons RunReply show ?thesis by (simp add: step_def updates_one)
    qed
  qed
next
  case (CallMethod meth args callback tmo)
  with assms [of meth args callback tmo] show ?thesis by simp
next
  case (SendSignal signal args)
  then show ?thesis by (simp add: step_def send_signal_def updates_one u_push)
next
  case (AddCallback cb)
  then show ?thesis by (simp add: step_def updates_one u_add_callback)
next
  case Close
  then show ?thesis by (simp add: step_def updates_one u_close)
qed

lemma exec_append: "exec J (es @ fs) c = exec J fs (exec J es c)"
  by (induction es arbitrary: c) simp_all

text \<open>An invariant of the elementary updates is an invariant of the connection.\<close>

lemma updates_invariant:
  assumes "updates J c c'" and "P c" and "\<And>a b. P a \<Longrightarrow> update J a b \<Longrightarrow> P b"
  shows "P c'"
  using assms(1,2) by (induction rule: rtranclp_induct) (auto intro: assms(3))

lemma step_invariant:
  assumes "P c"
    and "\<And>a b. P a \<Longrightarrow> update J a b \<Longrightarrow> P b"
    and "\<And>a method args callback tmo. P a \<Longrightarrow> P (call_method J method args callback tmo a)"
  shows "P (step J e c)"
proof (cases "\<exists>method args callback tmo. e = CallMethod method args callback tmo")
  case True
  then show ?thesis using assms(1,3) by (auto simp: step_def)
next
  case False
  then have "updates J c (step J e c)" by (intro updates_step) blast
  then show ?thesis using assms(1,2) by (rule updates_invariant)
qed

lemma exec_invariant:
  assumes "P c"
    and "\<And>a b. P a \<Longrightarrow> update J a b \<Longrightarrow> P b"
    and "\<And>a method args callback tmo. P a \<Longrightarrow> P (call_method J method args callback tmo a)"
  shows "P (exec J es c)"
  using assms(1)
proof (induction es arbitrary: c)
  case Nil
  then show ?case by simp
next
  case (Cons e es)
  from Cons.prems have "P (step J e c)" using assms(2,3) by (rule step_invariant)
  then show ?case using Cons.IH by simp
qed

subsection \<open>Closing\<close>

text \<open>How often the event \<^verbatim>\<open>ConnectionClosed\<close> was raised.\<close>

definition closes :: "conn \<Rightarrow> nat" where
  "closes c = length (filter (\<lambda>r. fst r = ''ConnectionClosed'') (raised c))"

lemma push_outgoing_lifecycle [simp]:
  "closed (push_outgoing J m c) = closed c"
  "raised (push_outgoing J m c) = raised c"
  "socket_ops (push_outgoing J m c) = socket_ops c"
  by (simp_all add: push_outgoing_def Let_def)

lemma call_method_lifecycle [simp]:
  "closed (call_method J method args callback tmo c) = closed c"
  "raised (call_method J method args callback tmo c) = raised c"
  "socket_ops (call_method J method args callback tmo c) = socket_ops c"
  by (simp_all add: call_method_def Let_def split: option.splits)

lemma run_closure_lifecycle [simp]:
  "closed (run_closure clo r c) = closed c"
  "raised (run_closure clo r c) = raised c"
  "socket_ops (run_closure clo r c) = socket_ops c"
  by (simp_all add: run_closure_def method_return_callback_def split: option.splits)

lemma close_closed [simp]: "closed (close c)"
  by (simp add: close_def run_callbacks_def)

lemma update_close_or_keep:
  assumes "update J a b"
  shows "(closed b = closed a \<and> raised b = raised a \<and> socket_ops b = socket_ops a)
         \<or> (\<not> closed a \<and> b = close a)"
  using assms
proof cases
  case u_close
  then show ?thesis by (cases "closed a") (simp_all add: close_def)
qed (simp_all add: add_callback_def)

definition lifecycle :: "conn \<Rightarrow> conn \<Rightarrow> bool" where
  "lifecycle a b =
     ((closed b = closed a \<and> closes b = closes a \<and> socket_ops b = socket_ops a)
      \<or> (\<not> closed a \<and> closed b \<and> closes b = closes a + 1
          \<and> socket_ops b = socket_ops a @ [Shutdown, SockClose]))"

lemma lifecycle_close: "\<not> closed a \<Longrightarrow> lifecycle a (close a)"
  by (simp add: lifecycle_def closes_def close_def run_callbacks_def)

lemma update_lifecycle: "update J a b \<Longrightarrow> lifecycle a b"
proof -
  assume "update J a b"
  from update_close_or_keep [OF this] show ?thesis
  proof
    assume "closed b = closed a \<and> raised b = raised a \<and> socket_ops b = socket_ops a"
    then show ?thesis by (simp add: lifecycle_def closes_def)
  next
    assume "\<not> closed a \<and> b = close a"
    then show ?thesis by (simp add: lifecycle_close)
  qed
qed

lemma lifecycle_trans: "lifecycle a b \<Longrightarrow> lifecycle b c \<Longrightarrow> lifecycle a c"
  unfolding lifecycle_def by (elim disjE conjE) simp_all

lemma lifecycle_refl: "lifecycle a a"
  by (simp add: lifecycle_def)

lemma lifecycle_exec: "lifecycle c (exec J es c)"
proof (rule exec_invariant [where P = "lifecycle c"])
  show "lifecycle c c" by (rule lifecycle_refl)
next
  fix a b
  assume "lifecycle c a" and "update J a b"
  then show "lifecycle c b" by (blast intro: lifecycle_trans update_lifecycle)
next
  fix a meth args callback tmo
  assume "lifecycle c a"
  moreover have "lifecycle a (call_method J meth args callback tmo a)"
    by (simp add: lifecycle_def closes_def)
  ultimately show "lifecycle c (call_method J meth args callback tmo a)"
    by (rule lifecycle_trans)
qed

lemma exec_Close: "Close \<in> set es \<Longrightarrow> closed (exec J es c)"
proof -
  assume "Close \<in> set es"
  then obtain es1 es2 where es: "es = es1 @ Close # es2" by (auto simp: in_set_conv_decomp)
  have "closed (step J Close (exec J es1 c))" by (simp add: step_def)
  then have "closed (exec J es2 (step J Close (exec J es1 c)))"
    using lifecycle_exec [of "step J Close (exec J es1 c)" J es2]
    by (simp add: lifecycle_def)
  then show ?thesis by (simp add: es exec_append)
qed

text \<open>
  Claim C9 (idempotent close). \<^verbatim>\<open>close()\<close> on a closed connection returns the connection
  as it is: no field changes, so no socket operation is made and no event is raised;
  closing twice is closing once. The first \<^verbatim>\<open>close()\<close> of an open connection raises
  \<^verbatim>\<open>ConnectionClosed\<close> to the registered callbacks and shuts the socket down. Over any
  sequence of events of the loop and calls of the application, a closed connection
  stays closed, \<^verbatim>\<open>ConnectionClosed\<close> is raised once more than before exactly when the
  connection went from open to closed (so once in the life of a connection that was
  closed, however often \<^verbatim>\<open>close()\<close> was called), the socket is shut down and closed
  exactly then, and a sequence with a \<^verbatim>\<open>close()\<close> in it ends closed.
\<close>

theorem close_idempotent:
  "(closed c \<longrightarrow> close c = c)
   \<and> close (close c) = close c
   \<and> (\<not> closed c \<longrightarrow>
        closed (close c)
        \<and> raised (close c) = raised c @ [(''ConnectionClosed'', callbacks c)]
        \<and> socket_ops (close c) = socket_ops c @ [Shutdown, SockClose])
   \<and> (closed c \<longrightarrow> closed (exec J es c))
   \<and> closes (exec J es c) = closes c + (if closed (exec J es c) \<and> \<not> closed c then 1 else 0)
   \<and> socket_ops (exec J es c)
       = socket_ops c @ (if closed (exec J es c) \<and> \<not> closed c then [Shutdown, SockClose] else [])
   \<and> (Close \<in> set es \<longrightarrow> closed (exec J es c))"
proof -
  have a: "closed c \<longrightarrow> close c = c" by (simp add: close_def)
  have b: "close (close c) = close c" by (simp add: close_def [of "close c"])
  have d: "\<not> closed c \<longrightarrow>
        closed (close c)
        \<and> raised (close c) = raised c @ [(''ConnectionClosed'', callbacks c)]
        \<and> socket_ops (close c) = socket_ops c @ [Shutdown, SockClose]"
    by (simp add: close_def run_callbacks_def)
  have l: "lifecycle c (exec J es c)" by (rule lifecycle_exec)
  have e1: "closed c \<longrightarrow> closed (exec J es c)"
    using l unfolding lifecycle_def by (elim disjE conjE) simp_all
  have e2: "closes (exec J es c) = closes c + (if closed (exec J es c) \<and> \<not> closed c then 1 else 0)"
    using l unfolding lifecycle_def by (elim disjE conjE) simp_all
  have e3: "socket_ops (exec J es c)
       = socket_ops c @ (if closed (exec J es c) \<and> \<not> closed c then [Shutdown, SockClose] else [])"
    using l unfolding lifecycle_def by (elim disjE conjE) simp_all
  have f: "Close \<in> set es \<longrightarrow> closed (exec J es c)" by (simp add: exec_Close)
  from a b d e1 e2 e3 f show ?thesis by (intro conjI)
qed


theorem close_idempotent_witness:
  "\<not> closed (init_conn None)
   \<and> closed (close (init_conn None))
   \<and> close (close (init_conn None)) = close (init_conn None)
   \<and> raised (close (add_callback (UserCallback 0) (init_conn None)))
       = [(''ConnectionClosed'', [UserCallback 0])]
   \<and> Close \<in> set [Close, Readable [], Close]
   \<and> closes (exec \<lparr>try_loads = \<lambda>s. None, dumps = \<lambda>m. []\<rparr> [Close, Readable [], Close] (init_conn None)) = 1
   \<and> socket_ops (exec \<lparr>try_loads = \<lambda>s. None, dumps = \<lambda>m. []\<rparr> [Close, Readable [], Close] (init_conn None))
       = [Shutdown, SockClose]"
  using close_idempotent [of "init_conn None" "\<lparr>try_loads = \<lambda>s. None, dumps = \<lambda>m. []\<rparr>" "[Close, Readable [], Close]"]
    close_idempotent [of "close (init_conn None)" "\<lparr>try_loads = \<lambda>s. None, dumps = \<lambda>m. []\<rparr>" "[]"]
    close_idempotent [of "add_callback (UserCallback 0) (init_conn None)" "\<lparr>try_loads = \<lambda>s. None, dumps = \<lambda>m. []\<rparr>" "[]"]
  by (simp add: init_conn_def closes_def add_callback_def)

subsection \<open>Call ids\<close>

text \<open>
  The ids that the calls of \<^verbatim>\<open>call_method\<close> in a sequence of events take, in order:
  each call reads \<^verbatim>\<open>self.next_serial\<close> for the id of its request.
\<close>

fun call_ids :: "json_lib \<Rightarrow> event list \<Rightarrow> conn \<Rightarrow> int list" where
  "call_ids J [] c = []"
| "call_ids J (e # es) c =
     (case e of CallMethod meth args callback tmo \<Rightarrow> [next_serial c] | _ \<Rightarrow> [])
       @ call_ids J es (step J e c)"

text \<open>The entries of the call table are filed under the id of their own call, which was allocated before.\<close>

definition table_ok :: "conn \<Rightarrow> bool" where
  "table_ok c =
     (1 \<le> next_serial c
      \<and> (\<forall>k clo. method_calls c k = Some clo \<longrightarrow> 1 \<le> k \<and> k < next_serial c \<and> call_id clo = k))"

lemma push_outgoing_table [simp]:
  "next_serial (push_outgoing J m c) = next_serial c"
  "method_calls (push_outgoing J m c) = method_calls c"
  by (simp_all add: push_outgoing_def Let_def)

lemma close_table [simp]:
  "next_serial (close c) = next_serial c"
  "method_calls (close c) = method_calls c"
  by (simp_all add: close_def run_callbacks_def)

lemma run_closure_next_serial [simp]:
  "next_serial (run_closure clo r c) = next_serial c"
  by (simp add: run_closure_def method_return_callback_def split: option.splits)

lemma run_closure_method_calls:
  "method_calls (run_closure clo r c) = method_calls c
   \<or> method_calls (run_closure clo r c) = (method_calls c)(call_id clo := None)"
  by (simp add: run_closure_def method_return_callback_def split: option.splits)

lemma call_method_next_serial [simp]:
  "next_serial (call_method J meth args callback tmo c) = next_serial c + 1"
  by (simp add: call_method_def Let_def split: option.splits)

lemma call_method_outgoing:
  "outgoing (call_method J meth args callback tmo c)
     = outgoing c @ [dumps J (request_message (next_serial c) meth args)]"
  by (simp add: call_method_def push_outgoing_def Let_def split: option.splits)

lemma call_method_method_calls:
  "method_calls (call_method J meth args callback tmo c)
     = (case callback of
          None \<Rightarrow> method_calls c
        | Some cb \<Rightarrow> (method_calls c)(next_serial c \<mapsto> \<lparr>call_id = next_serial c, reply_callback = cb\<rparr>))"
  by (simp add: call_method_def Let_def split: option.splits)

lemma update_next_serial: "update J a b \<Longrightarrow> next_serial b = next_serial a"
  by (erule update.cases) (simp_all add: add_callback_def)

lemma table_ok_remove: "table_ok c \<Longrightarrow> method_calls c' = (method_calls c)(k := None) \<Longrightarrow>
   next_serial c' = next_serial c \<Longrightarrow> table_ok c'"
  by (simp add: table_ok_def)

lemma table_ok_same: "table_ok c \<Longrightarrow> method_calls c' = method_calls c \<Longrightarrow>
   next_serial c' = next_serial c \<Longrightarrow> table_ok c'"
  by (simp add: table_ok_def)

lemma table_ok_run_closure: "table_ok c \<Longrightarrow> table_ok (run_closure clo r c)"
  using run_closure_method_calls [of clo r c]
  by (auto intro: table_ok_remove table_ok_same)

lemma update_table_ok:
  assumes "update J a b" and "table_ok a"
  shows "table_ok b"
  using assms
proof cases
  case (u_timer k tm)
  have "table_ok (a\<lparr>timers := (timers a)(k := None)\<rparr>)"
    using assms(2) by (rule table_ok_same) simp_all
  then show ?thesis unfolding u_timer(1) by (rule table_ok_run_closure)
next
  case (u_run_reply clo m ds)
  have "table_ok (a\<lparr>scheduled := ds\<rparr>)"
    using assms(2) by (rule table_ok_same) simp_all
  then show ?thesis unfolding u_run_reply(1) by (rule table_ok_run_closure)
next
  case (u_reply k clo m)
  show ?thesis unfolding u_reply(1) using assms(2) by (rule table_ok_remove) simp_all
qed (auto intro: table_ok_same [OF assms(2)] simp: add_callback_def)

lemma call_method_table_ok:
  "table_ok c \<Longrightarrow> table_ok (call_method J meth args callback tmo c)"
proof -
  assume t: "table_ok c"
  let ?c = "call_method J meth args callback tmo c"
  have "1 \<le> k \<and> k < next_serial ?c \<and> call_id clo = k" if "method_calls ?c k = Some clo" for k clo
  proof (cases "method_calls c k = Some clo")
    case True
    with t have "1 \<le> k \<and> k < next_serial c \<and> call_id clo = k" by (simp add: table_ok_def)
    then show ?thesis by simp
  next
    case False
    with that have "k = next_serial c \<and> call_id clo = next_serial c"
      by (auto simp: call_method_method_calls split: option.splits if_splits)
    with t show ?thesis by (simp add: table_ok_def)
  qed
  moreover from t have "1 \<le> next_serial ?c" by (simp add: table_ok_def)
  ultimately show "table_ok ?c" unfolding table_ok_def by blast
qed

lemma table_ok_exec: "table_ok c \<Longrightarrow> table_ok (exec J es c)"
  by (rule exec_invariant [where P = table_ok]) (auto intro: update_table_ok call_method_table_ok)

lemma step_next_serial:
  "next_serial (step J e c)
     = next_serial c + (case e of CallMethod meth args callback tmo \<Rightarrow> 1 | _ \<Rightarrow> 0)"
proof (cases "\<exists>meth args callback tmo. e = CallMethod meth args callback tmo")
  case True
  then show ?thesis by (auto simp: step_def)
next
  case False
  then have "updates J c (step J e c)" by (intro updates_step) blast
  then have "next_serial (step J e c) = next_serial c"
    by (rule updates_invariant [where P = "\<lambda>a. next_serial a = next_serial c"])
       (simp_all add: update_next_serial)
  with False show ?thesis by (cases e) simp_all
qed

lemma call_ids_from:
  "call_ids J es c = map (\<lambda>i. next_serial c + int i) [0..<length (call_ids J es c)]
   \<and> next_serial (exec J es c) = next_serial c + int (length (call_ids J es c))"
proof (induction es arbitrary: c)
  case Nil
  show ?case by simp
next
  case (Cons e es)
  let ?c = "step J e c"
  note ih = Cons [of ?c]
  show ?case
  proof (cases "\<exists>meth args callback tmo. e = CallMethod meth args callback tmo")
    case True
    then obtain meth args callback tmo where e: "e = CallMethod meth args callback tmo" by blast
    have ns: "next_serial ?c = next_serial c + 1" by (simp add: e step_def)
    let ?n = "length (call_ids J es ?c)"
    have "call_ids J (e # es) c = next_serial c # call_ids J es ?c" by (simp add: e)
    also have "call_ids J es ?c = map (\<lambda>i. next_serial c + 1 + int i) [0..<?n]"
      using ih ns by simp
    also have "next_serial c # map (\<lambda>i. next_serial c + 1 + int i) [0..<?n]
                 = map (\<lambda>i. next_serial c + int i) [0..<Suc ?n]"
      by (simp add: upt_rec [of 0 "Suc ?n"] map_Suc_upt [symmetric] del: upt_Suc)
    finally have a: "call_ids J (e # es) c = map (\<lambda>i. next_serial c + int i) [0..<Suc ?n]" .
    have l: "length (call_ids J (e # es) c) = Suc ?n" by (simp add: e)
    from ih ns have "next_serial (exec J (e # es) c) = next_serial c + int (Suc ?n)" by simp
    with a l show ?thesis by simp
  next
    case False
    then have ns: "next_serial ?c = next_serial c"
      using step_next_serial [of J e c] by (cases e) simp_all
    from False have "call_ids J (e # es) c = call_ids J es ?c" by (cases e) simp_all
    with ih ns show ?thesis by simp
  qed
qed

text \<open>
  Claim C8 (call ids). On a connection that starts with \<^verbatim>\<open>next_serial = 1\<close> and an empty
  call table, as \<^verbatim>\<open>__init__\<close> leaves it, over any sequence of events of the loop and
  calls of the application: the ids taken by the successive calls of \<^verbatim>\<open>call_method\<close>
  are 1, 2, 3, ... in this order, so they increase strictly and none is taken twice;
  the next id is one more than the number of calls made; every entry of the call
  table is filed under the id of the call that made it, an id between 1 and the last
  one taken, so two entries never have the same id; the id that the next call takes
  has no entry in the table, so a call never replaces an outstanding entry. The id
  taken is the one that goes out in the member \<^verbatim>\<open>id\<close> of the request.
\<close>

theorem call_ids_increasing:
  assumes "next_serial c = 1" and "method_calls c = Map.empty"
  shows "call_ids J es c = map (\<lambda>i. int i + 1) [0..<length (call_ids J es c)]
    \<and> sorted_wrt (<) (call_ids J es c)
    \<and> distinct (call_ids J es c)
    \<and> next_serial (exec J es c) = int (length (call_ids J es c)) + 1
    \<and> (\<forall>k clo. method_calls (exec J es c) k = Some clo \<longrightarrow>
           call_id clo = k \<and> 1 \<le> k \<and> k < next_serial (exec J es c))
    \<and> method_calls (exec J es c) (next_serial (exec J es c)) = None
    \<and> outgoing (call_method J meth args callback tmo (exec J es c))
           = outgoing (exec J es c)
             @ [dumps J (request_message (next_serial (exec J es c)) meth args)]
    \<and> map_of (request_message k meth args) ''id'' = Some (JInt k)"
proof -
  let ?ids = "call_ids J es c"
  from call_ids_from [of J es c] assms(1)
  have ids: "?ids = map (\<lambda>i. 1 + int i) [0..<length ?ids]"
    and ns: "next_serial (exec J es c) = 1 + int (length ?ids)" by simp_all
  from ids have a: "?ids = map (\<lambda>i. int i + 1) [0..<length ?ids]" by (simp add: add.commute)
  have "sorted_wrt (<) (map (\<lambda>i. int i + 1) [0..<n])" for n
    by (simp add: sorted_wrt_iff_nth_less)
  then have s: "sorted_wrt (<) ?ids" using a by metis
  from s have d: "distinct ?ids" by (simp add: strict_sorted_iff)
  from ns have n: "next_serial (exec J es c) = int (length ?ids) + 1" by simp
  from assms have "table_ok c" by (simp add: table_ok_def)
  then have t: "table_ok (exec J es c)" by (rule table_ok_exec)
  then have e: "\<forall>k clo. method_calls (exec J es c) k = Some clo \<longrightarrow>
           call_id clo = k \<and> 1 \<le> k \<and> k < next_serial (exec J es c)"
    by (simp add: table_ok_def)
  from t have f: "method_calls (exec J es c) (next_serial (exec J es c)) = None"
    by (cases "method_calls (exec J es c) (next_serial (exec J es c))") (auto simp: table_ok_def)
  have g: "outgoing (call_method J meth args callback tmo (exec J es c))
           = outgoing (exec J es c)
             @ [dumps J (request_message (next_serial (exec J es c)) meth args)]"
    by (rule call_method_outgoing)
  have h: "map_of (request_message k meth args) ''id'' = Some (JInt k)"
    by (simp add: request_message_def)
  from a s d n e f g h show ?thesis by (intro conjI)
qed

theorem call_ids_increasing_witness:
  "next_serial (init_conn None) = 1
   \<and> method_calls (init_conn None) = Map.empty
   \<and> call_ids \<lparr>try_loads = \<lambda>s. None, dumps = \<lambda>m. []\<rparr>
        [CallMethod ''ping'' [] None None,
         CallMethod ''get'' [JInt 7] (Some (UserCallback 0)) None,
         Close,
         CallMethod ''ping'' [] (Some (UserCallback 1)) (Some 5)]
        (init_conn None) = [1, 2, 3]
   \<and> next_serial (exec \<lparr>try_loads = \<lambda>s. None, dumps = \<lambda>m. []\<rparr>
        [CallMethod ''ping'' [] None None,
         CallMethod ''get'' [JInt 7] (Some (UserCallback 0)) None,
         Close,
         CallMethod ''ping'' [] (Some (UserCallback 1)) (Some 5)]
        (init_conn None)) = 4"
  using call_ids_increasing [where c = "init_conn None"
      and J = "\<lparr>try_loads = \<lambda>s. None, dumps = \<lambda>m. []\<rparr>"
      and es = "[CallMethod ''ping'' [] None None,
         CallMethod ''get'' [JInt 7] (Some (UserCallback 0)) None,
         Close,
         CallMethod ''ping'' [] (Some (UserCallback 1)) (Some 5)]"]
  by (simp add: init_conn_def step_def call_method_def push_outgoing_def Let_def close_def
        run_callbacks_def)

end
